theory Spec2Isabelle
  imports Complex_Main "HOL-Library.AList"
begin

section \<open>Data structures of Profiler.py\<close>

text \<open>
  Python objects are shared by reference: a \<open>TraceNode\<close> sits on its thread's stack and,
  at the same time, in the \<open>children\<close> list of its parent, and closing it through the stack
  is seen through the parent. The model therefore keeps all nodes in a store (a list,
  the address of a node being its index; a new node is appended) and lets stacks, child
  lists and the list of completed roots hold addresses.

  A \<open>datetime\<close> is an instant counted in microseconds, the resolution of the class.
  \<open>duration_ms\<close> is the exact quotient where Python computes a float.
\<close>

type_synonym instant = int

record trace_node =
  name :: string
  start_time :: instant
  end_time :: "instant option"
  thread_id :: int
  children :: "nat list"
  parent :: "nat option"

type_synonym store = "trace_node list"

definition TraceNode :: "string \<Rightarrow> instant \<Rightarrow> int \<Rightarrow> trace_node" where
  "TraceNode nm start tid =
     \<lparr>name = nm, start_time = start, end_time = None, thread_id = tid,
      children = [], parent = None\<rparr>"

definition close :: "trace_node \<Rightarrow> instant \<Rightarrow> trace_node" where
  "close n e = n\<lparr>end_time := Some e\<rparr>"

definition duration_ms :: "trace_node \<Rightarrow> rat" where
  "duration_ms n =
     (case end_time n of
        None \<Rightarrow> 0
      | Some e \<Rightarrow> of_int (e - start_time n) / 1000)"

definition child_duration :: "store \<Rightarrow> trace_node \<Rightarrow> rat" where
  "child_duration h n = sum_list (map (\<lambda>c. duration_ms (h ! c)) (children n))"

definition self_time_ms :: "store \<Rightarrow> trace_node \<Rightarrow> rat" where
  "self_time_ms h n = max 0 (duration_ms n - child_duration h n)"

text \<open>
  A compiled regular expression is known by what the program asks of it: \<open>search\<close> on a
  message, and \<open>match\<close> followed by \<open>groups\<close> on a line (a group that took no part in the
  match is \<open>None\<close>).
\<close>

record compiled_re =
  re_search :: "string \<Rightarrow> bool"
  re_match_groups :: "string \<Rightarrow> string option list option"

record event_def =
  def_name :: string
  start_re :: compiled_re
  end_re :: compiled_re
  threshold :: rat

record event_cfg =
  cfg_name :: string
  start_regex :: string
  end_regex :: string
  threshold_ms :: "rat option"

record config =
  log_header_pattern :: string
  time_format :: string
  events :: "event_cfg list"

record profiler =
  cfg :: config
  log_pattern :: compiled_re
  event_defs :: "event_def list"
  thread_stacks :: "(int \<times> nat list) list"
  completed_roots :: "nat list"
  nodes :: store

text \<open>
  \<open>thread_stacks\<close> is a Python dict: iteration follows insertion order, which
  \<open>AList.update\<close> keeps (a new key goes to the end, an old key keeps its place).
\<close>

section \<open>The stack engine: \<open>_check_events\<close>\<close>

text \<open>The body of the start branch (lines 120 to 133).\<close>

definition start_event :: "profiler \<Rightarrow> event_def \<Rightarrow> int \<Rightarrow> instant \<Rightarrow> profiler" where
  "start_event st d tid timestamp =
     (let a = length (nodes st);
          h1 = nodes st @ [TraceNode (def_name d) timestamp tid];
          stack = (case map_of (thread_stacks st) tid of None \<Rightarrow> [] | Some s \<Rightarrow> s);
          h2 = (if stack \<noteq> [] then
                  let p = last stack;
                      h' = h1[p := (h1 ! p)\<lparr>children := children (h1 ! p) @ [a]\<rparr>]
                  in h'[a := (h' ! a)\<lparr>parent := Some p\<rparr>]
                else h1)
      in st\<lparr>nodes := h2,
            thread_stacks := AList.update tid (stack @ [a]) (thread_stacks st)\<rparr>)"

text \<open>The body of the end branch (lines 137 to 150).\<close>

definition end_event :: "profiler \<Rightarrow> event_def \<Rightarrow> int \<Rightarrow> instant \<Rightarrow> profiler" where
  "end_event st d tid timestamp =
     (case map_of (thread_stacks st) tid of
        None \<Rightarrow> st
      | Some stack \<Rightarrow>
          if stack = [] then st
          else
            let node = last stack in
            if name (nodes st ! node) = def_name d then
              let h' = (nodes st)[node := close (nodes st ! node) timestamp];
                  stack' = butlast stack
              in st\<lparr>nodes := h',
                    thread_stacks := AList.update tid stack' (thread_stacks st),
                    completed_roots :=
                      (if stack' = [] then completed_roots st @ [node]
                       else completed_roots st)\<rparr>
            else st)"

text \<open>The loop over \<open>self.event_defs\<close>; both branches return from the method.\<close>

fun check_defs :: "profiler \<Rightarrow> event_def list \<Rightarrow> int \<Rightarrow> instant \<Rightarrow> string \<Rightarrow> profiler" where
  "check_defs st [] tid timestamp message = st"
| "check_defs st (d # ds) tid timestamp message =
     (if re_search (start_re d) message then start_event st d tid timestamp
      else if re_search (end_re d) message then end_event st d tid timestamp
      else check_defs st ds tid timestamp message)"

definition check_events :: "profiler \<Rightarrow> int \<Rightarrow> instant \<Rightarrow> string \<Rightarrow> profiler" where
  "check_events st tid timestamp message =
     check_defs st (event_defs st) tid timestamp message"

text \<open>
  The classifier is not a function of its own in the source: it is the choice of branch
  that the loop of \<open>_check_events\<close> makes. \<open>classify\<close> is that choice, and \<open>observe\<close>
  is what the chosen branch does; \<open>check_defs_classify\<close> below shows that the loop is
  their composition.
\<close>

datatype signal = Start event_def | End event_def

fun classify :: "event_def list \<Rightarrow> string \<Rightarrow> signal option" where
  "classify [] message = None"
| "classify (d # ds) message =
     (if re_search (start_re d) message then Some (Start d)
      else if re_search (end_re d) message then Some (End d)
      else classify ds message)"

fun observe :: "profiler \<Rightarrow> int \<Rightarrow> instant \<Rightarrow> signal option \<Rightarrow> profiler" where
  "observe st tid timestamp None = st"
| "observe st tid timestamp (Some (Start d)) = start_event st d tid timestamp"
| "observe st tid timestamp (Some (End d)) = end_event st d tid timestamp"

text \<open>
  The classifier as the specification words it: every start predicate is tried before
  any end predicate.
\<close>

definition classify_spec :: "event_def list \<Rightarrow> string \<Rightarrow> signal option" where
  "classify_spec defs message =
     (case find (\<lambda>d. re_search (start_re d) message) defs of
        Some d \<Rightarrow> Some (Start d)
      | None \<Rightarrow>
          (case find (\<lambda>d. re_search (end_re d) message) defs of
             Some d \<Rightarrow> Some (End d)
           | None \<Rightarrow> None))"

text \<open>A pattern without metacharacters, for concrete configurations: it matches a
  message that contains it.\<close>

fun contains :: "string \<Rightarrow> string \<Rightarrow> bool" where
  "contains pat [] = (pat = [])"
| "contains pat (c # cs) = (take (length pat) (c # cs) = pat \<or> contains pat cs)"

definition literal_re :: "string \<Rightarrow> compiled_re" where
  "literal_re pat =
     \<lparr>re_search = contains pat,
      re_match_groups = (\<lambda>line. if take (length pat) line = pat then Some [] else None)\<rparr>"

section \<open>Forced closure: \<open>_close_dangling_events\<close>\<close>

text \<open>
  The \<open>while stack\<close> loop, popping from the tail. A \<open>datetime\<close> is always true in a
  condition, so \<open>not node.end_time\<close> holds exactly when the end is unset.
\<close>

function drain_stack :: "nat list \<Rightarrow> store \<Rightarrow> nat list \<Rightarrow> nat list \<times> store \<times> nat list" where
  "drain_stack stack h roots =
     (if stack = [] then (stack, h, roots)
      else
        let node = last stack;
            stack' = butlast stack;
            h' = (if end_time (h ! node) = None
                  then h[node := close (h ! node) (start_time (h ! node))]
                  else h);
            roots' = (if stack' = [] then roots @ [node] else roots)
        in drain_stack stack' h' roots')"
  by pat_completeness auto
termination
  by (relation "measure (\<lambda>(stack, h, roots). length stack)") auto

declare drain_stack.simps [simp del]

text \<open>The \<open>for tid, stack in self.thread_stacks.items()\<close> loop, in the order of the dict.\<close>

fun close_stacks ::
  "(int \<times> nat list) list \<Rightarrow> store \<Rightarrow> nat list \<Rightarrow> (int \<times> nat list) list \<times> store \<times> nat list"
where
  "close_stacks [] h roots = ([], h, roots)"
| "close_stacks ((tid, stack) # rest) h roots =
     (case drain_stack stack h roots of
        (stack', h', roots') \<Rightarrow>
          (case close_stacks rest h' roots' of
             (rest', h'', roots'') \<Rightarrow> ((tid, stack') # rest', h'', roots'')))"

definition close_dangling_events :: "profiler \<Rightarrow> profiler" where
  "close_dangling_events st =
     (case close_stacks (thread_stacks st) (nodes st) (completed_roots st) of
        (stacks', h', roots') \<Rightarrow>
          st\<lparr>thread_stacks := stacks', nodes := h', completed_roots := roots'\<rparr>)"

section \<open>Output: the text report and the trace export\<close>

text \<open>
  Both outputs recurse over the children of a node. The recursion is bounded by a depth
  budget, as the interpreter bounds it by its recursion limit: \<open>None\<close> is the call that
  does not return a result.
\<close>

record trace_event =
  te_name :: string
  te_cat :: string
  te_ph :: string
  te_ts :: int
  te_pid :: int
  te_tid :: int

definition begin_event :: "trace_node \<Rightarrow> int \<Rightarrow> trace_event" where
  "begin_event n pid =
     \<lparr>te_name = name n, te_cat = ''PERF'', te_ph = ''B'', te_ts = start_time n,
      te_pid = pid, te_tid = thread_id n\<rparr>"

definition end_event_record :: "trace_node \<Rightarrow> int \<Rightarrow> trace_event" where
  "end_event_record n pid =
     \<lparr>te_name = name n, te_cat = ''PERF'', te_ph = ''E'',
      te_ts = (case end_time n of Some e \<Rightarrow> e | None \<Rightarrow> start_time n + 100),
      te_pid = pid, te_tid = thread_id n\<rparr>"

fun to_chrome_trace_events :: "nat \<Rightarrow> store \<Rightarrow> nat \<Rightarrow> int \<Rightarrow> trace_event list option" where
  "to_chrome_trace_events 0 h a pid = None"
| "to_chrome_trace_events (Suc depth) h a pid =
     (case those (map (\<lambda>child. to_chrome_trace_events depth h child pid) (children (h ! a))) of
        None \<Rightarrow> None
      | Some sub \<Rightarrow>
          Some ([begin_event (h ! a) pid] @ concat sub @ [end_event_record (h ! a) pid]))"

definition export_chrome_trace :: "nat \<Rightarrow> profiler \<Rightarrow> trace_event list option" where
  "export_chrome_trace depth st =
     map_option concat
       (those (map (\<lambda>root. to_chrome_trace_events depth (nodes st) root 1)
                 (completed_roots st)))"

datatype status_icon = Turtle | Check_mark

record report_entry =
  rp_level :: nat
  rp_icon :: status_icon
  rp_name :: string
  rp_total :: rat
  rp_self :: rat
  rp_thread :: int

text \<open>\<open>next((d['threshold'] for d in self.event_defs if d['name'] == node.name), 0)\<close>\<close>

definition lookup_threshold :: "event_def list \<Rightarrow> string \<Rightarrow> rat" where
  "lookup_threshold defs nm =
     (case find (\<lambda>d. def_name d = nm) defs of None \<Rightarrow> 0 | Some d \<Rightarrow> threshold d)"

definition node_entry :: "profiler \<Rightarrow> trace_node \<Rightarrow> nat \<Rightarrow> report_entry" where
  "node_entry st n level =
     (let thr = lookup_threshold (event_defs st) (name n)
      in \<lparr>rp_level = level,
          rp_icon = (if duration_ms n > thr then Turtle else Check_mark),
          rp_name = name n,
          rp_total = duration_ms n,
          rp_self = self_time_ms (nodes st) n,
          rp_thread = thread_id n\<rparr>)"

fun print_node_recursive :: "nat \<Rightarrow> profiler \<Rightarrow> nat \<Rightarrow> nat \<Rightarrow> report_entry list option" where
  "print_node_recursive 0 st a level = None"
| "print_node_recursive (Suc depth) st a level =
     (case those (map (\<lambda>child. print_node_recursive depth st child (level + 1))
                    (children (nodes st ! a))) of
        None \<Rightarrow> None
      | Some sub \<Rightarrow> Some (node_entry st (nodes st ! a) level # concat sub))"

definition print_text_report :: "nat \<Rightarrow> profiler \<Rightarrow> report_entry list option" where
  "print_text_report depth st =
     map_option concat
       (those (map (\<lambda>root. print_node_recursive depth st root 0) (completed_roots st)))"

section \<open>Reading the configuration and the log\<close>

text \<open>
  What the program takes from Python's library is a parameter of the model:
  \<open>re.compile\<close> (which fails on a malformed pattern), \<open>datetime.strptime\<close> on a text and a
  format, \<open>int\<close> on a text, \<open>str.strip\<close>, and the current year as text. The configuration
  is the decoded JSON object, with the keys the constructor reads and \<open>threshold_ms\<close>
  present or not; the log is the list of its lines. Files that cannot be opened or
  decoded are outside the model.
\<close>

record py_lib =
  re_compile :: "string \<Rightarrow> compiled_re option"
  strptime :: "string \<Rightarrow> string \<Rightarrow> instant option"
  int_of_str :: "string \<Rightarrow> int option"
  str_strip :: "string \<Rightarrow> string"
  now_year :: string

text \<open>\<open>Arg_count_error\<close> is the \<open>TypeError\<close> of a call with the wrong number of
  positional arguments; \<open>Recursion_error\<close> the exhausted depth budget.\<close>

datatype py_error = Regex_error | Value_error | Type_error | Arg_count_error | Recursion_error

fun compile_events :: "py_lib \<Rightarrow> event_cfg list \<Rightarrow> py_error + event_def list" where
  "compile_events lib [] = Inr []"
| "compile_events lib (evt # evts) =
     (case re_compile lib (start_regex evt) of
        None \<Rightarrow> Inl Regex_error
      | Some s \<Rightarrow>
          (case re_compile lib (end_regex evt) of
             None \<Rightarrow> Inl Regex_error
           | Some e \<Rightarrow>
               (case compile_events lib evts of
                  Inl err \<Rightarrow> Inl err
                | Inr ds \<Rightarrow>
                    Inr (\<lparr>def_name = cfg_name evt, start_re = s, end_re = e,
                          threshold = (case threshold_ms evt of None \<Rightarrow> 0 | Some t \<Rightarrow> t)\<rparr>
                         # ds))))"

definition LogProfiler :: "py_lib \<Rightarrow> config \<Rightarrow> py_error + profiler" where
  "LogProfiler lib c =
     (case re_compile lib (log_header_pattern c) of
        None \<Rightarrow> Inl Regex_error
      | Some lp \<Rightarrow>
          (case compile_events lib (events c) of
             Inl err \<Rightarrow> Inl err
           | Inr ds \<Rightarrow>
               Inr \<lparr>cfg = c, log_pattern = lp, event_defs = ds, thread_stacks = [],
                    completed_roots = [], nodes = []\<rparr>))"

definition str_of_group :: "string option \<Rightarrow> string" where
  "str_of_group g = (case g of None \<Rightarrow> ''None'' | Some s \<Rightarrow> s)"

definition parse_timestamp :: "py_lib \<Rightarrow> profiler \<Rightarrow> string option \<Rightarrow> instant option" where
  "parse_timestamp lib st time_str =
     strptime lib (now_year lib @ ''-'' @ str_of_group time_str)
       (''%Y-'' @ time_format (cfg st))"

definition int_of_group :: "py_lib \<Rightarrow> string option \<Rightarrow> py_error + int" where
  "int_of_group lib g =
     (case g of
        None \<Rightarrow> Inl Type_error
      | Some s \<Rightarrow> (case int_of_str lib s of None \<Rightarrow> Inl Value_error | Some i \<Rightarrow> Inr i))"

text \<open>
  The values handed over at a call site. \<open>_check_events(self, tid, timestamp, message)\<close>
  takes three positional arguments besides \<open>self\<close>; a call with another number of them
  raises before the body runs. The body is modelled on a thread number, an instant and a
  text; a call with three values of other kinds is given as a \<open>TypeError\<close> (what
  \<open>search\<close> raises on a message that is no text). The program has no such call: its
  only call, at line 114, passes four values.
\<close>

datatype pyval = PNone | PInt int | PInstant instant | PStr string

fun call_check_events :: "profiler \<Rightarrow> pyval list \<Rightarrow> py_error + profiler" where
  "call_check_events st [PInt tid, PInstant timestamp, PStr message] =
     Inr (check_events st tid timestamp message)"
| "call_check_events st [_, _, _] = Inl Type_error"
| "call_check_events st _ = Inl Arg_count_error"

definition pyval_of_group :: "string option \<Rightarrow> pyval" where
  "pyval_of_group g = (case g of None \<Rightarrow> PNone | Some s \<Rightarrow> PStr s)"

text \<open>The body of the loop of \<open>process_file\<close> for a line that matched (lines 102 to 114).\<close>

definition process_match :: "py_lib \<Rightarrow> profiler \<Rightarrow> string option list \<Rightarrow> py_error + profiler" where
  "process_match lib st groups =
     (case groups of
        [time_str, uid, pid, tid, level, tag, message] \<Rightarrow>
          (case parse_timestamp lib st time_str of
             None \<Rightarrow> Inl Value_error
           | Some current_time \<Rightarrow>
               (case int_of_group lib pid of
                  Inl err \<Rightarrow> Inl err
                | Inr pid' \<Rightarrow>
                    (case int_of_group lib tid of
                       Inl err \<Rightarrow> Inl err
                     | Inr tid' \<Rightarrow>
                         call_check_events st
                           [PInt pid', PInt tid', PInstant current_time,
                            pyval_of_group message])))
      | _ \<Rightarrow> Inl Value_error)"

fun process_file :: "py_lib \<Rightarrow> profiler \<Rightarrow> string list \<Rightarrow> py_error + profiler" where
  "process_file lib st [] = Inr st"
| "process_file lib st (raw # rest) =
     (case re_match_groups (log_pattern st) (str_strip lib raw) of
        None \<Rightarrow> process_file lib st rest
      | Some groups \<Rightarrow>
          (case process_match lib st groups of
             Inl err \<Rightarrow> Inl err
           | Inr st' \<Rightarrow> process_file lib st' rest))"

section \<open>The main block\<close>

text \<open>Lines 204 and 205: the two outputs, from the profiler as \<open>process_file\<close> left it.\<close>

definition report_and_export ::
  "nat \<Rightarrow> profiler \<Rightarrow> py_error + (report_entry list \<times> trace_event list)" where
  "report_and_export depth st =
     (case print_text_report depth st of
        None \<Rightarrow> Inl Recursion_error
      | Some report \<Rightarrow>
          (case export_chrome_trace depth st of
             None \<Rightarrow> Inl Recursion_error
           | Some trace \<Rightarrow> Inr (report, trace)))"

definition main ::
  "py_lib \<Rightarrow> nat \<Rightarrow> config \<Rightarrow> string list \<Rightarrow> py_error + (report_entry list \<times> trace_event list)"
where
  "main lib depth c log_lines =
     (case LogProfiler lib c of
        Inl err \<Rightarrow> Inl err
      | Inr profiler \<Rightarrow>
          (case process_file lib profiler log_lines of
             Inl err \<Rightarrow> Inl err
           | Inr profiler' \<Rightarrow> report_and_export depth profiler'))"

section \<open>Notions used in the statements\<close>


text \<open>The nodes below a node, itself included, and the nodes of the forest.\<close>

inductive_set subtree :: "store \<Rightarrow> nat \<Rightarrow> nat set" for h :: store and a :: nat where
  subtree_self: "a \<in> subtree h a"
| subtree_child: "b \<in> subtree h a \<Longrightarrow> c \<in> set (children (h ! b)) \<Longrightarrow> c \<in> subtree h a"

definition forest :: "profiler \<Rightarrow> nat set" where
  "forest st = (\<Union>r \<in> set (completed_roots st). subtree (nodes st) r)"

text \<open>
  The engine on a sequence of decoded lines (thread, instant, message), handed to
  \<open>_check_events\<close> one after the other, starting from a profiler as the constructor
  leaves it.
\<close>

fun feed :: "profiler \<Rightarrow> (int \<times> instant \<times> string) list \<Rightarrow> profiler" where
  "feed st [] = st"
| "feed st ((tid, timestamp, message) # rest) =
     feed (check_events st tid timestamp message) rest"

definition fresh :: "profiler \<Rightarrow> bool" where
  "fresh st \<longleftrightarrow> thread_stacks st = [] \<and> completed_roots st = [] \<and> nodes st = []"

definition stack_of :: "profiler \<Rightarrow> int \<Rightarrow> nat list" where
  "stack_of st tid = (case map_of (thread_stacks st) tid of None \<Rightarrow> [] | Some s \<Rightarrow> s)"

definition on_stack :: "profiler \<Rightarrow> nat \<Rightarrow> bool" where
  "on_stack st a \<longleftrightarrow> (\<exists>(tid, stack) \<in> set (thread_stacks st). a \<in> set stack)"

text \<open>
  Addresses are in range and a child is younger than its parent: what holds of every
  store the engine builds, since a reference in Python cannot dangle and a node is
  created after the node it is attached to.
\<close>

definition heap_ok :: "store \<Rightarrow> bool" where
  "heap_ok h \<longleftrightarrow> (\<forall>a < length h. \<forall>c \<in> set (children (h ! a)). a < c \<and> c < length h)"

definition wf_state :: "profiler \<Rightarrow> bool" where
  "wf_state st \<longleftrightarrow>
     heap_ok (nodes st)
     \<and> (\<forall>(tid, stack) \<in> set (thread_stacks st). \<forall>a \<in> set stack. a < length (nodes st))
     \<and> (\<forall>r \<in> set (completed_roots st). r < length (nodes st))"




text \<open>
  Forced closure as the specification words it: every node of the given set whose end is
  unset gets its own start as its end, and nothing else changes.
\<close>

definition force_close :: "nat set \<Rightarrow> store \<Rightarrow> store" where
  "force_close S h =
     map (\<lambda>a. if a \<in> S \<and> end_time (h ! a) = None
              then close (h ! a) (start_time (h ! a)) else h ! a)
       [0..<length h]"

text \<open>
  Properly nested pairs on one thread: a sequence of blocks, each a start line, nested
  pairs, and an end line of a definition with the name of the one that started the
  block. The number counts the pairs.
\<close>

inductive nested :: "event_def list \<Rightarrow> int \<Rightarrow> (int \<times> instant \<times> string) list \<Rightarrow> nat \<Rightarrow> bool"
  for defs :: "event_def list" and tid :: int
where
  nested_Nil: "nested defs tid [] 0"
| nested_pair:
    "classify defs m1 = Some (Start d1) \<Longrightarrow>
     classify defs m2 = Some (End d2) \<Longrightarrow>
     def_name d2 = def_name d1 \<Longrightarrow>
     nested defs tid inner k \<Longrightarrow>
     nested defs tid rest j \<Longrightarrow>
     nested defs tid ((tid, t1, m1) # inner @ (tid, t2, m2) # rest) (Suc (k + j))"

section \<open>A concrete configuration and run\<close>

text \<open>
  A small library for concrete runs: a pattern is a literal, except the header pattern,
  which splits a line into six fields separated by a blank and the rest; a time is a
  decimal count of microseconds.
\<close>

fun digits_to_nat :: "nat \<Rightarrow> string \<Rightarrow> nat option" where
  "digits_to_nat acc [] = Some acc"
| "digits_to_nat acc (c # cs) =
     (case map_of [(CHR ''0'', 0), (CHR ''1'', 1), (CHR ''2'', 2), (CHR ''3'', 3), (CHR ''4'', 4),
                   (CHR ''5'', 5), (CHR ''6'', 6), (CHR ''7'', 7), (CHR ''8'', 8), (CHR ''9'', 9)] c of
        None \<Rightarrow> None
      | Some v \<Rightarrow> digits_to_nat (10 * acc + v) cs)"

definition decimal :: "string \<Rightarrow> int option" where
  "decimal s = (if s = [] then None else map_option int (digits_to_nat 0 s))"

fun take_fields :: "nat \<Rightarrow> string \<Rightarrow> string list option" where
  "take_fields 0 s = Some [s]"
| "take_fields (Suc n) s =
     (case dropWhile (\<lambda>c. c \<noteq> CHR '' '') s of
        [] \<Rightarrow> None
      | _ # r \<Rightarrow> map_option (Cons (takeWhile (\<lambda>c. c \<noteq> CHR '' '') s)) (take_fields n r))"

definition ex_header_pattern :: string where
  "ex_header_pattern = ''([^ ]+) ([^ ]+) ([^ ]+) ([^ ]+) ([^ ]+) ([^ ]+) (.*)''"

definition header_re :: compiled_re where
  "header_re =
     \<lparr>re_search = (\<lambda>line. take_fields 6 line \<noteq> None),
      re_match_groups = (\<lambda>line. map_option (map Some) (take_fields 6 line))\<rparr>"

definition ex_lib :: py_lib where
  "ex_lib =
     \<lparr>re_compile = (\<lambda>p. Some (if p = ex_header_pattern then header_re else literal_re p)),
      strptime = (\<lambda>text fmt. decimal (drop 5 text)),
      int_of_str = decimal,
      str_strip = (\<lambda>s. s),
      now_year = ''2026''\<rparr>"

definition ex_config :: config where
  "ex_config =
     \<lparr>log_header_pattern = ex_header_pattern, time_format = ''%f'',
      events =
        [\<lparr>cfg_name = ''A'', start_regex = ''START A'', end_regex = ''END A'',
          threshold_ms = None\<rparr>,
         \<lparr>cfg_name = ''B'', start_regex = ''START B'', end_regex = ''END B'',
          threshold_ms = Some 100\<rparr>]\<rparr>"

definition ex_defs :: "event_def list" where
  "ex_defs =
     [\<lparr>def_name = ''A'', start_re = literal_re ''START A'', end_re = literal_re ''END A'',
       threshold = 0\<rparr>,
      \<lparr>def_name = ''B'', start_re = literal_re ''START B'', end_re = literal_re ''END B'',
       threshold = 100\<rparr>]"

definition ex_profiler :: profiler where
  "ex_profiler =
     \<lparr>cfg = ex_config, log_pattern = header_re, event_defs = ex_defs, thread_stacks = [],
      completed_roots = [], nodes = []\<rparr>"

text \<open>Thread 1: \<open>START A\<close> at 0, \<open>START B\<close> at 1 ms, \<open>END B\<close> at 5 ms, and no \<open>END A\<close>.\<close>

definition ex_open_A :: profiler where
  "ex_open_A = check_events ex_profiler 1 0 ''START A''"

definition ex_open_AB :: profiler where
  "ex_open_AB = check_events ex_open_A 1 1000 ''START B''"

definition ex_dangling :: profiler where
  "ex_dangling = check_events ex_open_AB 1 5000 ''END B''"

definition ex_finalized :: profiler where
  "ex_finalized = close_dangling_events ex_dangling"

definition ex_lines :: "(int \<times> instant \<times> string) list" where
  "ex_lines = [(1, 0, ''START A''), (1, 1000, ''START B''), (1, 5000, ''END B'')]"


text \<open>Thread 1: \<open>START A\<close>, \<open>START B\<close>, \<open>END B\<close>, \<open>END A\<close> at 0, 1, 5 and 10 ms.\<close>

definition ex_pairs :: "(int \<times> instant \<times> string) list" where
  "ex_pairs =
     [(1, 0, ''START A''), (1, 1000, ''START B''), (1, 5000, ''END B''), (1, 10000, ''END A'')]"

text \<open>Thread 1: \<open>START A\<close> at 0 and \<open>END A\<close> at 5 ms.\<close>

definition ex_done_A :: profiler where
  "ex_done_A = check_events ex_open_A 1 5000 ''END A''"

text \<open>Two definitions where the end pattern of the first and the start pattern of the
  second match the same message.\<close>

definition ex_load :: event_def where
  "ex_load =
     \<lparr>def_name = ''Load'', start_re = literal_re ''load begin'',
      end_re = literal_re ''load done'', threshold = 0\<rparr>"

definition ex_idle :: event_def where
  "ex_idle =
     \<lparr>def_name = ''Idle'', start_re = literal_re ''done'',
      end_re = literal_re ''idle over'', threshold = 0\<rparr>"

definition ex_load_idle :: profiler where
  "ex_load_idle = ex_profiler\<lparr>event_defs := [ex_load, ex_idle]\<rparr>"

section \<open>The classifier inside the loop\<close>

lemma check_defs_classify:
  "check_defs st defs tid timestamp message =
     observe st tid timestamp (classify defs message)"
  by (induction defs) simp_all

text \<open>
  Claim C1, as amended. The loop tries, definition by definition, the start pattern and
  then the end pattern, so the signal is that of the first definition, in configured
  order, one of whose two patterns matches the message: a start signal if its start
  pattern matches, an end signal otherwise. If no definition matches the line is
  ignored. A line gives at most one signal, and \<open>_check_events\<close> does what that signal
  asks and nothing else.
\<close>

theorem classify_first_match:
  "classify defs message =
     (case find (\<lambda>d. re_search (start_re d) message \<or> re_search (end_re d) message) defs of
        None \<Rightarrow> None
      | Some d \<Rightarrow> Some (if re_search (start_re d) message then Start d else End d))
   \<and> check_events st tid timestamp message =
       observe st tid timestamp (classify (event_defs st) message)"
  by (induction defs) (simp_all add: check_events_def check_defs_classify)

text \<open>
  Claim C1 as stated fails: the message \<open>load done\<close> matches the end pattern of the first
  definition and the start pattern of the second. The loop returns the end signal of the
  first, where every start pattern tried first would give the start signal of the second:
  on a fresh profiler \<open>_check_events\<close> creates no node, where the start signal would
  have created the node \<open>Idle\<close>.
\<close>

theorem classify_not_start_first:
  "re_search (end_re ex_load) ''load done''
   \<and> re_search (start_re ex_idle) ''load done''
   \<and> classify [ex_load, ex_idle] ''load done'' = Some (End ex_load)
   \<and> classify_spec [ex_load, ex_idle] ''load done'' = Some (Start ex_idle)
   \<and> event_defs ex_load_idle = [ex_load, ex_idle]
   \<and> nodes (check_events ex_load_idle 1 0 ''load done'') = []
   \<and> nodes (observe ex_load_idle 1 0 (classify_spec [ex_load, ex_idle] ''load done''))
       = [TraceNode ''Idle'' 0 1]"
proof -
  have matches: "re_search (end_re ex_load) ''load done''"
    "re_search (start_re ex_idle) ''load done''"
    "\<not> re_search (start_re ex_load) ''load done''"
    by (simp_all add: ex_load_def ex_idle_def literal_re_def)
  then have code: "classify [ex_load, ex_idle] ''load done'' = Some (End ex_load)"
    and spec: "classify_spec [ex_load, ex_idle] ''load done'' = Some (Start ex_idle)"
    by (simp_all add: classify_spec_def)
  have defs: "event_defs ex_load_idle = [ex_load, ex_idle]"
    by (simp add: ex_load_idle_def)
  have "check_events ex_load_idle 1 0 ''load done''
      = observe ex_load_idle 1 0 (classify (event_defs ex_load_idle) ''load done'')"
    by (simp add: check_events_def check_defs_classify)
  also have "\<dots> = end_event ex_load_idle ex_load 1 0"
    unfolding defs code by simp
  finally have "nodes (check_events ex_load_idle 1 0 ''load done'') = []"
    by (simp add: end_event_def ex_load_idle_def ex_profiler_def)
  moreover have "observe ex_load_idle 1 0 (classify_spec [ex_load, ex_idle] ''load done'')
      = start_event ex_load_idle ex_idle 1 0"
    unfolding spec by simp
  then have "nodes (observe ex_load_idle 1 0 (classify_spec [ex_load, ex_idle] ''load done''))
       = [TraceNode ''Idle'' 0 1]"
    by (simp add: start_event_def ex_load_idle_def ex_profiler_def ex_idle_def)
  ultimately show ?thesis
    using matches(1,2) code spec defs by (intro conjI)
qed

section \<open>The concrete run, evaluated\<close>

lemma ex_init: "LogProfiler ex_lib ex_config = Inr ex_profiler"
  by (simp add: LogProfiler_def ex_lib_def ex_config_def ex_profiler_def ex_defs_def
      ex_header_pattern_def)

lemma classify_ex:
  "classify ex_defs ''START A'' = Some (Start (ex_defs ! 0))"
  "classify ex_defs ''END A'' = Some (End (ex_defs ! 0))"
  "classify ex_defs ''START B'' = Some (Start (ex_defs ! 1))"
  "classify ex_defs ''END B'' = Some (End (ex_defs ! 1))"
  by (simp_all add: ex_defs_def literal_re_def)

lemma ex_defs_names: "def_name (ex_defs ! 0) = ''A''" "def_name (ex_defs ! Suc 0) = ''B''"
  by (simp_all add: ex_defs_def)

lemma drain_stack_Nil [simp]: "drain_stack [] h roots = ([], h, roots)"
  by (simp add: drain_stack.simps)

lemma drain_stack_snoc [simp]:
  "drain_stack (stack @ [node]) h roots =
     drain_stack stack
       (if end_time (h ! node) = None
        then h[node := close (h ! node) (start_time (h ! node))] else h)
       (if stack = [] then roots @ [node] else roots)"
  by (subst drain_stack.simps) (simp add: Let_def)

lemmas ex_eval = check_events_def check_defs_classify classify_ex start_event_def end_event_def
  Let_def TraceNode_def close_def ex_defs_names

lemma ex_open_A_eq:
  "ex_open_A =
     ex_profiler\<lparr>thread_stacks := [(1, [0])],
       nodes := [\<lparr>name = ''A'', start_time = 0, end_time = None, thread_id = 1,
                  children = [], parent = None\<rparr>]\<rparr>"
  by (simp add: ex_open_A_def ex_profiler_def ex_eval)

lemma ex_open_AB_eq:
  "ex_open_AB =
     ex_profiler\<lparr>thread_stacks := [(1, [0, 1])],
       nodes := [\<lparr>name = ''A'', start_time = 0, end_time = None, thread_id = 1,
                  children = [1], parent = None\<rparr>,
                 \<lparr>name = ''B'', start_time = 1000, end_time = None, thread_id = 1,
                  children = [], parent = Some 0\<rparr>]\<rparr>"
  by (simp add: ex_open_AB_def ex_open_A_eq ex_profiler_def ex_eval)

lemma ex_dangling_eq:
  "ex_dangling =
     ex_profiler\<lparr>thread_stacks := [(1, [0])],
       nodes := [\<lparr>name = ''A'', start_time = 0, end_time = None, thread_id = 1,
                  children = [1], parent = None\<rparr>,
                 \<lparr>name = ''B'', start_time = 1000, end_time = Some 5000, thread_id = 1,
                  children = [], parent = Some 0\<rparr>]\<rparr>"
  by (simp add: ex_dangling_def ex_open_AB_eq ex_profiler_def ex_eval)

lemma ex_finalized_eq:
  "ex_finalized =
     ex_profiler\<lparr>thread_stacks := [(1, [])], completed_roots := [0],
       nodes := [\<lparr>name = ''A'', start_time = 0, end_time = Some 0, thread_id = 1,
                  children = [1], parent = None\<rparr>,
                 \<lparr>name = ''B'', start_time = 1000, end_time = Some 5000, thread_id = 1,
                  children = [], parent = Some 0\<rparr>]\<rparr>"
  using drain_stack_snoc [of "[]" 0]
  by (simp add: ex_finalized_def ex_dangling_eq ex_profiler_def close_dangling_events_def
      close_def)

lemma ex_done_A_eq:
  "ex_done_A =
     ex_profiler\<lparr>thread_stacks := [(1, [])], completed_roots := [0],
       nodes := [\<lparr>name = ''A'', start_time = 0, end_time = Some 5000, thread_id = 1,
                  children = [], parent = None\<rparr>]\<rparr>"
  by (simp add: ex_done_A_def ex_open_A_eq ex_profiler_def ex_eval)

section \<open>Mismatched end signals\<close>

text \<open>
  Claim C6. When the line is classified as an end signal of a definition \<open>d\<close> and the
  thread has no stack, or an empty one, or the name of the node on top of its stack is
  not the name of \<open>d\<close>, \<open>_check_events\<close> returns the profiler as it was: every stack,
  the completed roots and every node are unchanged. No frame is unwound, and the method
  has no failing branch.
\<close>

theorem mismatched_end_noop:
  assumes "classify (event_defs st) message = Some (End d)"
    and "case map_of (thread_stacks st) tid of
           None \<Rightarrow> True
         | Some stack \<Rightarrow> stack = [] \<or> name (nodes st ! last stack) \<noteq> def_name d"
  shows "check_events st tid timestamp message = st"
  using assms
  by (auto simp add: check_events_def check_defs_classify end_event_def Let_def
      split: option.splits)

theorem mismatched_end_noop_witness:
  "classify (event_defs ex_open_A) ''END B'' = Some (End (ex_defs ! 1))
   \<and> map_of (thread_stacks ex_open_A) 1 = Some [0]
   \<and> name (nodes ex_open_A ! last [0]) \<noteq> def_name (ex_defs ! 1)
   \<and> check_events ex_open_A 1 7000 ''END B'' = ex_open_A"
  using mismatched_end_noop [of ex_open_A "''END B''" "ex_defs ! 1" 1 7000]
  by (simp add: ex_open_A_eq ex_profiler_def classify_ex ex_defs_names)

section \<open>Durations and self time\<close>

text \<open>
  Claim C4, as amended. For every node, the self time is at least 0, and the self time
  plus the durations of the direct children is the larger of the node's duration and
  that sum: it is the node's duration exactly when the children's durations add up to no
  more than it. (Durations are exact quotients here; the claim allows for rounding.)
\<close>

theorem self_time_conservation:
  "0 \<le> self_time_ms h n
   \<and> self_time_ms h n + child_duration h n = max (duration_ms n) (child_duration h n)"
  by (simp add: self_time_ms_def max_def)

text \<open>
  Claim C4 as stated fails after forced closure: in the run with \<open>START A\<close>, \<open>START B\<close>,
  \<open>END B\<close> and no \<open>END A\<close>, the root \<open>A\<close> is closed with duration 0 while its child \<open>B\<close>
  lasted 4 ms, so self time plus children is 4 and not 0.
\<close>

theorem self_time_not_conserved:
  "completed_roots ex_finalized = [0]
   \<and> duration_ms (nodes ex_finalized ! 0) = 0
   \<and> self_time_ms (nodes ex_finalized) (nodes ex_finalized ! 0)
       + child_duration (nodes ex_finalized) (nodes ex_finalized ! 0) = 4"
  by (simp add: ex_finalized_eq self_time_ms_def child_duration_def duration_ms_def)

text \<open>
  Claim C10. Popping a node in forced closure closes it at its own start when its end is
  unset, whatever its children hold. In the run with \<open>START A\<close>, \<open>START B\<close>, \<open>END B\<close>
  and no \<open>END A\<close>, the completed root \<open>A\<close> ends at 0, before the end of its child \<open>B\<close>
  at 5 ms, and its duration 0 is less than the 4 ms of its children.
\<close>

theorem forced_closure_ignores_children:
  "drain_stack (stack @ [node]) h roots =
     drain_stack stack
       (if end_time (h ! node) = None
        then h[node := close (h ! node) (start_time (h ! node))] else h)
       (if stack = [] then roots @ [node] else roots)
   \<and> ex_finalized = close_dangling_events ex_dangling
   \<and> end_time (nodes ex_dangling ! 0) = None
   \<and> completed_roots ex_finalized = [0]
   \<and> children (nodes ex_finalized ! 0) = [1]
   \<and> end_time (nodes ex_finalized ! 0) = Some (start_time (nodes ex_finalized ! 0))
   \<and> end_time (nodes ex_finalized ! 0) = Some 0
   \<and> end_time (nodes ex_finalized ! 1) = Some 5000
   \<and> duration_ms (nodes ex_finalized ! 0)
       < child_duration (nodes ex_finalized) (nodes ex_finalized ! 0)"
proof -
  have pop: "drain_stack (stack @ [node]) h roots =
     drain_stack stack
       (if end_time (h ! node) = None
        then h[node := close (h ! node) (start_time (h ! node))] else h)
       (if stack = [] then roots @ [node] else roots)"
    by simp
  have run: "ex_finalized = close_dangling_events ex_dangling"
    by (simp add: ex_finalized_def)
  have "end_time (nodes ex_dangling ! 0) = None
   \<and> completed_roots ex_finalized = [0]
   \<and> children (nodes ex_finalized ! 0) = [1]
   \<and> end_time (nodes ex_finalized ! 0) = Some (start_time (nodes ex_finalized ! 0))
   \<and> end_time (nodes ex_finalized ! 0) = Some 0
   \<and> end_time (nodes ex_finalized ! 1) = Some 5000
   \<and> duration_ms (nodes ex_finalized ! 0)
       < child_duration (nodes ex_finalized) (nodes ex_finalized ! 0)"
    by (simp add: ex_finalized_eq ex_dangling_eq child_duration_def duration_ms_def)
  then show ?thesis
    by (rule conjI [OF pop conjI [OF run]])
qed

section \<open>Reading the log: the call of \<open>_check_events\<close>\<close>







lemma ex_decimal:
  "decimal ''1000'' = Some 1000" "decimal ''12'' = Some 12" "decimal ''1'' = Some 1"
  "decimal ''soon'' = None"
  by (simp_all add: decimal_def)


lemma ex_lib_simps:
  "str_strip ex_lib s = s" "int_of_str ex_lib = decimal"
  "strptime ex_lib text fmt = decimal (drop 5 text)" "now_year ex_lib = ''2026''"
  by (simp_all add: ex_lib_def)




section \<open>The main block and forced closure\<close>

text \<open>
  Claim C3 does not hold of the main block: it calls \<open>process_file\<close>, \<open>print_text_report\<close>
  and \<open>export_chrome_trace\<close>, and \<open>_close_dangling_events\<close> is called nowhere. With an
  empty log the program ends with empty outputs; with one \<open>START A\<close> line it stops in
  \<open>process_file\<close>. On a profiler that holds the open node \<open>A\<close> the two outputs of the main
  block are empty, where after \<open>_close_dangling_events\<close> they show \<open>A\<close> and its child.
\<close>

theorem outputs_skip_dangling:
  "main ex_lib 5 ex_config [] = Inr ([], [])
   \<and> main ex_lib 5 ex_config [''0 u0 12 1 I App START A''] = Inl Arg_count_error
   \<and> thread_stacks ex_dangling = [(1, [0])]
   \<and> report_and_export 5 ex_dangling = Inr ([], [])
   \<and> report_and_export 5 (close_dangling_events ex_dangling) =
       Inr ([\<lparr>rp_level = 0, rp_icon = Check_mark, rp_name = ''A'', rp_total = 0,
              rp_self = 0, rp_thread = 1\<rparr>,
             \<lparr>rp_level = 1, rp_icon = Check_mark, rp_name = ''B'', rp_total = 4,
              rp_self = 4, rp_thread = 1\<rparr>],
            [\<lparr>te_name = ''A'', te_cat = ''PERF'', te_ph = ''B'', te_ts = 0,
              te_pid = 1, te_tid = 1\<rparr>,
             \<lparr>te_name = ''B'', te_cat = ''PERF'', te_ph = ''B'', te_ts = 1000,
              te_pid = 1, te_tid = 1\<rparr>,
             \<lparr>te_name = ''B'', te_cat = ''PERF'', te_ph = ''E'', te_ts = 5000,
              te_pid = 1, te_tid = 1\<rparr>,
             \<lparr>te_name = ''A'', te_cat = ''PERF'', te_ph = ''E'', te_ts = 0,
              te_pid = 1, te_tid = 1\<rparr>])"
proof -
  have empty_log: "main ex_lib 5 ex_config [] = Inr ([], [])"
    by (simp add: main_def ex_init report_and_export_def print_text_report_def
        export_chrome_trace_def ex_profiler_def)
  have "re_match_groups header_re ''0 u0 12 1 I App START A'' =
     Some [Some ''0'', Some ''u0'', Some ''12'', Some ''1'', Some ''I'', Some ''App'',
           Some ''START A'']"
    by (simp add: header_re_def numeral_nat)
  moreover have "decimal ''0'' = Some 0"
    by (simp add: decimal_def)
  ultimately have one_line:
    "main ex_lib 5 ex_config [''0 u0 12 1 I App START A''] = Inl Arg_count_error"
    by (simp add: main_def ex_init ex_lib_simps ex_profiler_def process_match_def
        parse_timestamp_def str_of_group_def int_of_group_def ex_decimal)
  have stacks: "thread_stacks ex_dangling = [(1, [0])]"
    by (simp add: ex_dangling_eq)
  have before: "report_and_export 5 ex_dangling = Inr ([], [])"
    by (simp add: ex_dangling_eq report_and_export_def print_text_report_def
        export_chrome_trace_def ex_profiler_def)
  have after: "report_and_export 5 (close_dangling_events ex_dangling) =
       Inr ([\<lparr>rp_level = 0, rp_icon = Check_mark, rp_name = ''A'', rp_total = 0,
              rp_self = 0, rp_thread = 1\<rparr>,
             \<lparr>rp_level = 1, rp_icon = Check_mark, rp_name = ''B'', rp_total = 4,
              rp_self = 4, rp_thread = 1\<rparr>],
            [\<lparr>te_name = ''A'', te_cat = ''PERF'', te_ph = ''B'', te_ts = 0,
              te_pid = 1, te_tid = 1\<rparr>,
             \<lparr>te_name = ''B'', te_cat = ''PERF'', te_ph = ''B'', te_ts = 1000,
              te_pid = 1, te_tid = 1\<rparr>,
             \<lparr>te_name = ''B'', te_cat = ''PERF'', te_ph = ''E'', te_ts = 5000,
              te_pid = 1, te_tid = 1\<rparr>,
             \<lparr>te_name = ''A'', te_cat = ''PERF'', te_ph = ''E'', te_ts = 0,
              te_pid = 1, te_tid = 1\<rparr>])"
    unfolding ex_finalized_def [symmetric]
    by (simp add: ex_finalized_eq report_and_export_def print_text_report_def
        export_chrome_trace_def numeral_nat node_entry_def lookup_threshold_def ex_profiler_def
        ex_defs_def duration_ms_def self_time_ms_def child_duration_def begin_event_def
        end_event_record_def)
  from empty_log one_line stacks before after show ?thesis
    by (intro conjI)
qed

section \<open>Lists of results, and subtrees\<close>

lemma those_eq_Some: "those xs = Some ys \<longleftrightarrow> xs = map Some ys"
  by (induction xs arbitrary: ys) (auto split: option.splits)

lemma those_map_nth:
  assumes "those (map f xs) = Some ys"
  shows "length ys = length xs" and "i < length xs \<Longrightarrow> f (xs ! i) = Some (ys ! i)"
proof -
  from assms have eq: "map f xs = map Some ys"
    by (simp add: those_eq_Some)
  then show len: "length ys = length xs"
    by (metis length_map)
  show "f (xs ! i) = Some (ys ! i)" if "i < length xs"
    using that eq len by (metis nth_map)
qed

lemma in_concat_nth:
  assumes "e \<in> set (concat xss)"
  shows "\<exists>i<length xss. e \<in> set (xss ! i)"
proof -
  from assms obtain xs where "xs \<in> set xss" "e \<in> set xs"
    by auto
  moreover from this(1) obtain i where "i < length xss" "xss ! i = xs"
    by (auto simp: in_set_conv_nth)
  ultimately show ?thesis
    by auto
qed

lemma subtree_below:
  "b \<in> subtree h c \<Longrightarrow> c \<in> set (children (h ! a)) \<Longrightarrow> b \<in> subtree h a"
  by (induction rule: subtree.induct) (auto intro: subtree.intros)

lemma subtree_head:
  "b \<in> subtree h a \<Longrightarrow> b = a \<or> (\<exists>c \<in> set (children (h ! a)). b \<in> subtree h c)"
  by (induction rule: subtree.induct) (auto intro: subtree.intros)

section \<open>Facts about the engine\<close>

lemma set_update_subset: "set (AList.update k v al) \<subseteq> insert (k, v) (set al)"
  by (induction al) auto


lemma stack_of_in_set:
  "stack_of st tid \<noteq> [] \<Longrightarrow> (tid, stack_of st tid) \<in> set (thread_stacks st)"
  by (auto simp: stack_of_def split: option.splits dest: map_of_SomeD)

lemma start_event_simps:
  "thread_stacks (start_event st d tid ts) =
     AList.update tid (stack_of st tid @ [length (nodes st)]) (thread_stacks st)"
  "completed_roots (start_event st d tid ts) = completed_roots st"
  "event_defs (start_event st d tid ts) = event_defs st"
  "length (nodes (start_event st d tid ts)) = Suc (length (nodes st))"
  by (simp_all add: start_event_def Let_def stack_of_def)

lemma start_event_old_node:
  assumes "a < length (nodes st)"
  shows "nodes (start_event st d tid ts) ! a =
     (if stack_of st tid \<noteq> [] \<and> a = last (stack_of st tid)
      then (nodes st ! a)\<lparr>children := children (nodes st ! a) @ [length (nodes st)]\<rparr>
      else nodes st ! a)"
  using assms
  by (auto simp add: start_event_def Let_def stack_of_def nth_append nth_list_update)

lemma start_event_new_node:
  assumes "stack_of st tid \<noteq> [] \<longrightarrow> last (stack_of st tid) < length (nodes st)"
  shows "nodes (start_event st d tid ts) ! length (nodes st) =
     (TraceNode (def_name d) ts tid)
       \<lparr>parent := (if stack_of st tid = [] then None else Some (last (stack_of st tid)))\<rparr>"
  using assms
  by (auto simp add: start_event_def Let_def stack_of_def nth_append nth_list_update TraceNode_def)

lemma end_event_cases:
  obtains (noop) "end_event st d tid ts = st"
  | (pop) stack node where "map_of (thread_stacks st) tid = Some (stack @ [node])"
      "name (nodes st ! node) = def_name d"
      "nodes (end_event st d tid ts) = (nodes st)[node := close (nodes st ! node) ts]"
      "thread_stacks (end_event st d tid ts) = AList.update tid stack (thread_stacks st)"
      "completed_roots (end_event st d tid ts) =
         (if stack = [] then completed_roots st @ [node] else completed_roots st)"
      "event_defs (end_event st d tid ts) = event_defs st"
proof (cases "map_of (thread_stacks st) tid")
  case None
  then show ?thesis using noop by (simp add: end_event_def)
next
  case (Some s)
  show ?thesis
  proof (cases "s = [] \<or> name (nodes st ! last s) \<noteq> def_name d")
    case True
    with Some show ?thesis using noop by (auto simp add: end_event_def Let_def)
  next
    case False
    then have "s = butlast s @ [last s]" by simp
    with Some False pop [of "butlast s" "last s"] show ?thesis
      by (simp add: end_event_def Let_def)
  qed
qed

section \<open>Forced closure, characterised\<close>

lemma close_simps [simp]:
  "children (close n e) = children n" "name (close n e) = name n"
  "start_time (close n e) = start_time n" "thread_id (close n e) = thread_id n"
  "parent (close n e) = parent n" "end_time (close n e) = Some e"
  by (simp_all add: close_def)

lemma length_force_close [simp]: "length (force_close S h) = length h"
  by (simp add: force_close_def)

lemma nth_force_close:
  "a < length h \<Longrightarrow>
     force_close S h ! a =
       (if a \<in> S \<and> end_time (h ! a) = None then close (h ! a) (start_time (h ! a))
        else h ! a)"
  by (simp add: force_close_def)

lemma force_close_empty [simp]: "force_close {} h = h"
  by (rule nth_equalityI) (simp_all add: nth_force_close)

lemma force_close_single:
  "(if end_time (h ! a) = None then h[a := close (h ! a) (start_time (h ! a))] else h)
     = force_close {a} h"
  by (rule nth_equalityI) (auto simp add: nth_force_close nth_list_update)

lemma force_close_twice: "force_close S (force_close T h) = force_close (S \<union> T) h"
  by (rule nth_equalityI) (auto simp add: nth_force_close)

lemma drain_stack_single:
  "drain_stack [a] h roots = ([], force_close {a} h, roots @ [a])"
  using drain_stack_snoc [of "[]" a h roots] by (simp add: force_close_single)

lemma drain_stack_eq:
  "drain_stack stack h roots =
     ([], force_close (set stack) h, roots @ (if stack = [] then [] else [hd stack]))"
proof (induction stack arbitrary: h roots rule: rev_induct)
  case Nil
  then show ?case by simp
next
  case (snoc a s)
  show ?case
    by (cases "s = []")
      (simp_all add: drain_stack_single force_close_single snoc.IH force_close_twice)
qed

lemma close_stacks_eq:
  "close_stacks al h roots =
     (map (\<lambda>(tid, stack). (tid, [])) al,
      force_close (\<Union>(tid, stack) \<in> set al. set stack) h,
      roots @ map (\<lambda>(tid, stack). hd stack) (filter (\<lambda>(tid, stack). stack \<noteq> []) al))"
proof (induction al arbitrary: h roots)
  case Nil
  then show ?case by simp
next
  case (Cons p al)
  obtain tid stack where p: "p = (tid, stack)"
    by (cases p)
  show ?case
    by (simp add: p drain_stack_eq Cons.IH force_close_twice Un_commute)
qed

lemma close_dangling_events_eq:
  "close_dangling_events st =
     st\<lparr>thread_stacks := map (\<lambda>(tid, stack). (tid, [])) (thread_stacks st),
        nodes := force_close {a. on_stack st a} (nodes st),
        completed_roots :=
          completed_roots st
          @ map (\<lambda>(tid, stack). hd stack) (filter (\<lambda>(tid, stack). stack \<noteq> []) (thread_stacks st))\<rparr>"
proof -
  have "(\<Union>(tid, stack) \<in> set (thread_stacks st). set stack) = {a. on_stack st a}"
    by (auto simp add: on_stack_def)
  then show ?thesis
    by (simp add: close_dangling_events_def close_stacks_eq)
qed



section \<open>Stores the engine builds\<close>

lemma heap_okD: "heap_ok h \<Longrightarrow> a < length h \<Longrightarrow> c \<in> set (children (h ! a)) \<Longrightarrow> a < c \<and> c < length h"
  unfolding heap_ok_def by blast

lemma heap_okI:
  "(\<And>a c. a < length h \<Longrightarrow> c \<in> set (children (h ! a)) \<Longrightarrow> a < c \<and> c < length h) \<Longrightarrow> heap_ok h"
  unfolding heap_ok_def by blast

lemma wf_stateD:
  "wf_state st \<Longrightarrow> heap_ok (nodes st)"
  "wf_state st \<Longrightarrow> (t, stk) \<in> set (thread_stacks st) \<Longrightarrow> a \<in> set stk \<Longrightarrow> a < length (nodes st)"
  "wf_state st \<Longrightarrow> r \<in> set (completed_roots st) \<Longrightarrow> r < length (nodes st)"
  unfolding wf_state_def by blast+

lemma wf_stateI:
  assumes "heap_ok (nodes st)"
    and "\<And>t stk a. (t, stk) \<in> set (thread_stacks st) \<Longrightarrow> a \<in> set stk \<Longrightarrow> a < length (nodes st)"
    and "\<And>r. r \<in> set (completed_roots st) \<Longrightarrow> r < length (nodes st)"
  shows "wf_state st"
  unfolding wf_state_def using assms by blast

lemma in_update_cases:
  assumes "(t, stk) \<in> set (AList.update k v al)"
  obtains "t = k" "stk = v" | "(t, stk) \<in> set al"
  using assms set_update_subset [of k v al] by blast

lemma stack_of_bound:
  assumes "wf_state st" and "a \<in> set (stack_of st tid)"
  shows "a < length (nodes st)"
proof -
  from assms(2) have "stack_of st tid \<noteq> []" by auto
  from wf_stateD(2) [OF assms(1) stack_of_in_set [OF this] assms(2)] show ?thesis .
qed

lemma wf_state_start_event:
  assumes "wf_state st"
  shows "wf_state (start_event st d tid ts)"
proof (rule wf_stateI)
  let ?st' = "start_event st d tid ts"
  let ?n = "length (nodes st)"
  let ?s = "stack_of st tid"
  have last_bound: "?s \<noteq> [] \<longrightarrow> last ?s < ?n"
    using stack_of_bound [OF assms, of "last ?s" tid] by simp
  show "heap_ok (nodes ?st')"
  proof (rule heap_okI)
    fix a c
    assume a: "a < length (nodes ?st')" and c: "c \<in> set (children (nodes ?st' ! a))"
    show "a < c \<and> c < length (nodes ?st')"
    proof (cases "a < ?n")
      case True
      from c have "c \<in> set (children (nodes st ! a)) \<or> c = ?n"
        by (auto simp add: start_event_old_node [OF True] split: if_splits)
      then show ?thesis
      proof
        assume "c \<in> set (children (nodes st ! a))"
        from heap_okD [OF wf_stateD(1) [OF assms] True this] show ?thesis
          by (simp add: start_event_simps)
      next
        assume "c = ?n"
        with True show ?thesis by (simp add: start_event_simps)
      qed
    next
      case False
      with a have "a = ?n" by (simp add: start_event_simps)
      with c start_event_new_node [OF last_bound, of d ts] show ?thesis
        by (simp add: TraceNode_def)
    qed
  qed
  show "a < length (nodes ?st')" if "(t, stk) \<in> set (thread_stacks ?st')" "a \<in> set stk" for t stk a
  proof -
    from that(1) have "(t, stk) \<in> set (AList.update tid (?s @ [?n]) (thread_stacks st))"
      by (simp add: start_event_simps)
    then have "a < Suc ?n"
    proof (cases rule: in_update_cases)
      case 1
      with that(2) have "a \<in> set ?s \<or> a = ?n" by auto
      then show ?thesis
        using stack_of_bound [OF assms, of a tid] by auto
    next
      case 2
      from wf_stateD(2) [OF assms this that(2)] show ?thesis by simp
    qed
    then show ?thesis by (simp add: start_event_simps)
  qed
  show "r < length (nodes ?st')" if "r \<in> set (completed_roots ?st')" for r
    using that wf_stateD(3) [OF assms, of r] by (simp add: start_event_simps)
qed

lemma wf_state_end_event:
  assumes "wf_state st"
  shows "wf_state (end_event st d tid ts)"
proof (cases rule: end_event_cases [where st = st and d = d and tid = tid and ts = ts])
  case noop
  with assms show ?thesis by simp
next
  case (pop stack node)
  let ?st' = "end_event st d tid ts"
  from pop(1) have in_set: "(tid, stack @ [node]) \<in> set (thread_stacks st)"
    by (rule map_of_SomeD)
  have bound: "a < length (nodes st)" if "a \<in> set (stack @ [node])" for a
    using wf_stateD(2) [OF assms in_set that] .
  have children: "children (nodes ?st' ! a) = children (nodes st ! a)" if "a < length (nodes st)" for a
    using that by (cases "a = node") (simp_all add: pop(3))
  show ?thesis
  proof (rule wf_stateI)
    show "heap_ok (nodes ?st')"
    proof (rule heap_okI)
      fix a c
      assume "a < length (nodes ?st')" and "c \<in> set (children (nodes ?st' ! a))"
      then have "a < length (nodes st)" "c \<in> set (children (nodes st ! a))"
        using children [of a] by (simp_all add: pop(3))
      from heap_okD [OF wf_stateD(1) [OF assms] this] show "a < c \<and> c < length (nodes ?st')"
        by (simp add: pop(3))
    qed
  next
    fix t stk a
    assume "(t, stk) \<in> set (thread_stacks ?st')" and a: "a \<in> set stk"
    then have "(t, stk) \<in> set (AList.update tid stack (thread_stacks st))"
      by (simp add: pop(4))
    then have "a < length (nodes st)"
    proof (cases rule: in_update_cases)
      case 1
      with a bound [of a] show ?thesis by simp
    next
      case 2
      from wf_stateD(2) [OF assms this a] show ?thesis .
    qed
    then show "a < length (nodes ?st')"
      by (simp add: pop(3))
  next
    fix r
    assume "r \<in> set (completed_roots ?st')"
    then have "r \<in> set (completed_roots st) \<or> r = node"
      by (auto simp add: pop(5) split: if_splits)
    then have "r < length (nodes st)"
      using wf_stateD(3) [OF assms, of r] bound [of node] by auto
    then show "r < length (nodes ?st')"
      by (simp add: pop(3))
  qed
qed

lemma observe_cases:
  obtains (ignore) "classify (event_defs st) message = None"
      "check_events st tid ts message = st"
  | (start_signal) d where "classify (event_defs st) message = Some (Start d)"
      "check_events st tid ts message = start_event st d tid ts"
  | (end_signal) d where "classify (event_defs st) message = Some (End d)"
      "check_events st tid ts message = end_event st d tid ts"
proof (cases "classify (event_defs st) message")
  case None
  then show ?thesis using ignore by (simp add: check_events_def check_defs_classify)
next
  case (Some sig)
  then show ?thesis using start_signal end_signal
    by (cases sig) (simp_all add: check_events_def check_defs_classify)
qed

lemma wf_state_check_events: "wf_state st \<Longrightarrow> wf_state (check_events st tid ts message)"
  by (rule observe_cases [where st = st and tid = tid and ts = ts and message = message])
     (simp_all add: wf_state_start_event wf_state_end_event)


lemma wf_state_feed: "wf_state st \<Longrightarrow> wf_state (feed st ls)"
  by (induction st ls rule: feed.induct) (simp_all add: wf_state_check_events)

lemma fresh_wf_state: "fresh st \<Longrightarrow> wf_state st"
  by (simp add: fresh_def wf_state_def heap_ok_def)

lemma children_force_close:
  "a < length h \<Longrightarrow> children (force_close S h ! a) = children (h ! a)"
  by (simp add: nth_force_close)

lemma close_dangling_events_simps:
  "thread_stacks (close_dangling_events st) =
     map (\<lambda>(tid, stack). (tid, [])) (thread_stacks st)"
  "nodes (close_dangling_events st) = force_close {a. on_stack st a} (nodes st)"
  "completed_roots (close_dangling_events st) =
     completed_roots st
     @ map (\<lambda>(tid, stack). hd stack) (filter (\<lambda>(tid, stack). stack \<noteq> []) (thread_stacks st))"
  "event_defs (close_dangling_events st) = event_defs st"
  by (simp_all add: close_dangling_events_eq)

lemma new_roots_on_stack:
  assumes "r \<in> set (completed_roots (close_dangling_events st))"
  shows "r \<in> set (completed_roots st) \<or> on_stack st r"
proof -
  from assms have "r \<in> set (completed_roots st)
      \<or> (\<exists>t stk. (t, stk) \<in> set (thread_stacks st) \<and> stk \<noteq> [] \<and> r = hd stk)"
    by (auto simp add: close_dangling_events_simps)
  then show ?thesis
  proof
    assume "r \<in> set (completed_roots st)"
    then show ?thesis ..
  next
    assume "\<exists>t stk. (t, stk) \<in> set (thread_stacks st) \<and> stk \<noteq> [] \<and> r = hd stk"
    then obtain t stk where "(t, stk) \<in> set (thread_stacks st)" "r \<in> set stk"
      by auto
    then have "on_stack st r"
      unfolding on_stack_def by blast
    then show ?thesis ..
  qed
qed

lemma on_stack_bound: "wf_state st \<Longrightarrow> on_stack st a \<Longrightarrow> a < length (nodes st)"
  by (auto simp add: on_stack_def dest: wf_stateD(2))

lemma wf_state_close_dangling_events:
  assumes "wf_state st"
  shows "wf_state (close_dangling_events st)"
proof (rule wf_stateI)
  let ?st' = "close_dangling_events st"
  show "heap_ok (nodes ?st')"
  proof (rule heap_okI)
    fix a c
    assume "a < length (nodes ?st')" and "c \<in> set (children (nodes ?st' ! a))"
    then have "a < length (nodes st)" "c \<in> set (children (nodes st ! a))"
      by (simp_all add: close_dangling_events_simps children_force_close)
    from heap_okD [OF wf_stateD(1) [OF assms] this] show "a < c \<and> c < length (nodes ?st')"
      by (simp add: close_dangling_events_simps)
  qed
  show "a < length (nodes ?st')" if "(t, stk) \<in> set (thread_stacks ?st')" "a \<in> set stk" for t stk a
    using that by (auto simp add: close_dangling_events_simps)
  show "r < length (nodes ?st')" if "r \<in> set (completed_roots ?st')" for r
    using new_roots_on_stack [OF that] wf_stateD(3) [OF assms, of r] on_stack_bound [OF assms, of r]
    by (auto simp add: close_dangling_events_simps)
qed




section \<open>The trace export\<close>

lemma those_map_total:
  "(\<And>x. x \<in> set xs \<Longrightarrow> \<exists>y. f x = Some y) \<Longrightarrow> \<exists>ys. those (map f xs) = Some ys"
proof (induction xs)
  case Nil
  then show ?case by simp
next
  case (Cons x xs)
  then obtain y ys where "f x = Some y" "those (map f xs) = Some ys"
    by (meson list.set_intros)
  then show ?case by simp
qed

lemma those_map_cong:
  assumes "those (map f xs) = Some ys"
    and "\<And>x y. x \<in> set xs \<Longrightarrow> f x = Some y \<Longrightarrow> g x = Some y"
  shows "those (map g xs) = Some ys"
  using assms
proof (induction xs arbitrary: ys)
  case Nil
  then show ?case by simp
next
  case (Cons x xs)
  from Cons.prems(1) obtain y ys' where y: "f x = Some y" "those (map f xs) = Some ys'" "ys = y # ys'"
    by (auto split: option.splits)
  from Cons.prems(2) [of x y] y(1) have "g x = Some y" by simp
  moreover from Cons.IH [OF y(2)] Cons.prems(2) have "those (map g xs) = Some ys'" by simp
  ultimately show ?case using y(3) by simp
qed

lemma to_chrome_mono:
  "to_chrome_trace_events k h a pid = Some evs \<Longrightarrow> k \<le> k' \<Longrightarrow>
     to_chrome_trace_events k' h a pid = Some evs"
proof (induction k arbitrary: a evs k')
  case 0
  then show ?case by simp
next
  case (Suc k)
  from Suc.prems(2) obtain j where k': "k' = Suc j" and le: "k \<le> j"
    by (cases k') auto
  let ?cs = "children (h ! a)"
  from Suc.prems(1) obtain sub where
    sub: "those (map (\<lambda>child. to_chrome_trace_events k h child pid) ?cs) = Some sub"
    and evs: "evs = [begin_event (h ! a) pid] @ concat sub @ [end_event_record (h ! a) pid]"
    by (auto split: option.splits)
  have "those (map (\<lambda>child. to_chrome_trace_events j h child pid) ?cs) = Some sub"
  proof (rule those_map_cong [OF sub])
    fix x y
    assume "x \<in> set ?cs" and "to_chrome_trace_events k h x pid = Some y"
    from Suc.IH [OF this(2) le] show "to_chrome_trace_events j h x pid = Some y" .
  qed
  with evs k' show ?case by simp
qed

lemma concat_split_nth:
  "i < length xss \<Longrightarrow> concat xss = concat (take i xss) @ xss ! i @ concat (drop (Suc i) xss)"
  by (metis concat.simps(2) concat_append id_take_nth_drop)

lemma child_block:
  assumes "to_chrome_trace_events (Suc k) h a pid = Some evs"
    and "c \<in> set (children (h ! a))"
  shows "\<exists>pre sub post. to_chrome_trace_events k h c pid = Some sub
    \<and> evs = [begin_event (h ! a) pid] @ pre @ sub @ post @ [end_event_record (h ! a) pid]"
proof -
  let ?cs = "children (h ! a)"
  from assms(1) obtain ss where
    ss: "those (map (\<lambda>child. to_chrome_trace_events k h child pid) ?cs) = Some ss"
    and evs: "evs = [begin_event (h ! a) pid] @ concat ss @ [end_event_record (h ! a) pid]"
    by (auto split: option.splits)
  from assms(2) obtain i where i: "i < length ?cs" "?cs ! i = c"
    by (auto simp: in_set_conv_nth)
  from those_map_nth [OF ss] i have c: "to_chrome_trace_events k h c pid = Some (ss ! i)"
    and len: "i < length ss"
    by auto
  from concat_split_nth [OF len] evs have
    "evs = [begin_event (h ! a) pid] @ concat (take i ss) @ ss ! i @ concat (drop (Suc i) ss)
       @ [end_event_record (h ! a) pid]"
    by simp
  with c show ?thesis by blast
qed

lemma descendant_block:
  "to_chrome_trace_events k h a pid = Some evs \<Longrightarrow> d \<in> subtree h a \<Longrightarrow>
     \<exists>pre sub post. to_chrome_trace_events k h d pid = Some sub \<and> evs = pre @ sub @ post"
proof (induction k arbitrary: a evs)
  case 0
  then show ?case by simp
next
  case (Suc k)
  from subtree_head [OF Suc.prems(2)] show ?case
  proof
    assume "d = a"
    with Suc.prems(1) have "to_chrome_trace_events (Suc k) h d pid = Some evs \<and> evs = [] @ evs @ []"
      by simp
    then show ?thesis by blast
  next
    assume "\<exists>c \<in> set (children (h ! a)). d \<in> subtree h c"
    then obtain c where c: "c \<in> set (children (h ! a))" "d \<in> subtree h c"
      by blast
    from child_block [OF Suc.prems(1) c(1)] obtain pre subc post where
      subc: "to_chrome_trace_events k h c pid = Some subc"
      and evs: "evs = [begin_event (h ! a) pid] @ pre @ subc @ post @ [end_event_record (h ! a) pid]"
      by blast
    from Suc.IH [OF subc c(2)] obtain pre' sub post' where
      sub: "to_chrome_trace_events k h d pid = Some sub" and split: "subc = pre' @ sub @ post'"
      by blast
    from to_chrome_mono [OF sub, of "Suc k"] have "to_chrome_trace_events (Suc k) h d pid = Some sub"
      by simp
    moreover from evs split have
      "evs = ([begin_event (h ! a) pid] @ pre @ pre') @ sub
         @ (post' @ post @ [end_event_record (h ! a) pid])"
      by simp
    ultimately show ?thesis by blast
  qed
qed

lemma block_shape:
  "to_chrome_trace_events k h a pid = Some evs \<Longrightarrow>
     \<exists>mid. evs = [begin_event (h ! a) pid] @ mid @ [end_event_record (h ! a) pid]"
  by (cases k) (auto split: option.splits)

lemma proper_descendant_block:
  assumes "to_chrome_trace_events k h n pid = Some evs"
    and "c \<in> set (children (h ! n))" and "d \<in> subtree h c"
  shows "\<exists>pre mid post.
     to_chrome_trace_events k h d pid
       = Some ([begin_event (h ! d) pid] @ mid @ [end_event_record (h ! d) pid])
     \<and> evs = [begin_event (h ! n) pid] @ pre
         @ [begin_event (h ! d) pid] @ mid @ [end_event_record (h ! d) pid]
         @ post @ [end_event_record (h ! n) pid]"
proof -
  from assms(1) obtain j where k: "k = Suc j"
    by (cases k) auto
  from child_block [OF assms(1) [unfolded k] assms(2)] obtain pre subc post where
    subc: "to_chrome_trace_events j h c pid = Some subc"
    and evs: "evs = [begin_event (h ! n) pid] @ pre @ subc @ post @ [end_event_record (h ! n) pid]"
    by blast
  from descendant_block [OF subc assms(3)] obtain pre' sub post' where
    sub: "to_chrome_trace_events j h d pid = Some sub" and split: "subc = pre' @ sub @ post'"
    by blast
  from block_shape [OF sub] obtain mid where
    mid: "sub = [begin_event (h ! d) pid] @ mid @ [end_event_record (h ! d) pid]"
    by blast
  from to_chrome_mono [OF sub, of k] k mid have
    "to_chrome_trace_events k h d pid
       = Some ([begin_event (h ! d) pid] @ mid @ [end_event_record (h ! d) pid])"
    by simp
  moreover from evs split mid have
    "evs = [begin_event (h ! n) pid] @ (pre @ pre')
       @ [begin_event (h ! d) pid] @ mid @ [end_event_record (h ! d) pid]
       @ (post' @ post) @ [end_event_record (h ! n) pid]"
    by simp
  ultimately show ?thesis
    by blast
qed

lemma to_chrome_returns:
  assumes "heap_ok h"
  shows "a < length h \<Longrightarrow> length h - a \<le> k \<Longrightarrow> \<exists>evs. to_chrome_trace_events k h a pid = Some evs"
proof (induction k arbitrary: a)
  case 0
  then show ?case by simp
next
  case (Suc k)
  have "\<exists>y. to_chrome_trace_events k h c pid = Some y" if "c \<in> set (children (h ! a))" for c
  proof -
    from heap_okD [OF assms Suc.prems(1) that] have "a < c" "c < length h"
      by simp_all
    with Suc.prems(2) have "length h - c \<le> k"
      by simp
    with Suc.IH \<open>c < length h\<close> show ?thesis
      by blast
  qed
  from those_map_total [of "children (h ! a)" "\<lambda>c. to_chrome_trace_events k h c pid", OF this]
  obtain ss where "those (map (\<lambda>c. to_chrome_trace_events k h c pid) (children (h ! a))) = Some ss"
    by blast
  then show ?case by simp
qed

lemma export_chrome_trace_returns:
  assumes "wf_state st" and "length (nodes st) \<le> depth"
  shows "\<exists>evs. export_chrome_trace depth st = Some evs"
proof -
  have "\<exists>y. to_chrome_trace_events depth (nodes st) r 1 = Some y"
    if "r \<in> set (completed_roots st)" for r
    using to_chrome_returns [OF wf_stateD(1) [OF assms(1)] wf_stateD(3) [OF assms(1) that]] assms(2)
    by simp
  from those_map_total [of "completed_roots st" "\<lambda>r. to_chrome_trace_events depth (nodes st) r 1",
      OF this]
  show ?thesis
    by (auto simp add: export_chrome_trace_def)
qed

text \<open>
  Claim C9. The export is the concatenation of the blocks of the roots, and the block of a
  node is its begin record, the blocks of its children in order, and its end record. So
  for every node \<open>n\<close> of the forest and every node \<open>d\<close> below a child of \<open>n\<close>, the whole
  block of \<open>d\<close>, from its begin record to its end record, lies between the begin record
  and the end record of \<open>n\<close>. The export returns a result on every store the engine
  builds, given a depth budget of at least the number of nodes.
\<close>

theorem trace_nesting:
  "(wf_state st \<and> length (nodes st) \<le> depth \<longrightarrow> (\<exists>evs. export_chrome_trace depth st = Some evs))
   \<and> (export_chrome_trace depth st = Some evs \<and> n \<in> forest st
        \<and> c \<in> set (children (nodes st ! n)) \<and> d \<in> subtree (nodes st) c \<longrightarrow>
      (\<exists>before pre mid post after.
         to_chrome_trace_events depth (nodes st) d 1
           = Some ([begin_event (nodes st ! d) 1] @ mid @ [end_event_record (nodes st ! d) 1])
         \<and> evs = before @ [begin_event (nodes st ! n) 1] @ pre
             @ [begin_event (nodes st ! d) 1] @ mid @ [end_event_record (nodes st ! d) 1]
             @ post @ [end_event_record (nodes st ! n) 1] @ after))"
proof (intro conjI impI)
  assume "wf_state st \<and> length (nodes st) \<le> depth"
  then show "\<exists>evs. export_chrome_trace depth st = Some evs"
    using export_chrome_trace_returns by blast
next
  let ?h = "nodes st"
  let ?rs = "completed_roots st"
  assume a: "export_chrome_trace depth st = Some evs \<and> n \<in> forest st
        \<and> c \<in> set (children (nodes st ! n)) \<and> d \<in> subtree (nodes st) c"
  then obtain ss where
    ss: "those (map (\<lambda>root. to_chrome_trace_events depth ?h root 1) ?rs) = Some ss"
    and evs: "evs = concat ss"
    by (auto simp add: export_chrome_trace_def)
  from a obtain i where i: "i < length ?rs" "n \<in> subtree ?h (?rs ! i)"
    by (auto simp add: forest_def in_set_conv_nth)
  from those_map_nth [OF ss] i(1) have
    root: "to_chrome_trace_events depth ?h (?rs ! i) 1 = Some (ss ! i)" and len: "i < length ss"
    by auto
  from descendant_block [OF root i(2)] obtain pre1 subn post1 where
    subn: "to_chrome_trace_events depth ?h n 1 = Some subn" and split1: "ss ! i = pre1 @ subn @ post1"
    by blast
  from a have "c \<in> set (children (?h ! n))" "d \<in> subtree ?h c"
    by simp_all
  from proper_descendant_block [OF subn this] obtain pre mid post where
    d: "to_chrome_trace_events depth ?h d 1
       = Some ([begin_event (?h ! d) 1] @ mid @ [end_event_record (?h ! d) 1])"
    and split2: "subn = [begin_event (?h ! n) 1] @ pre
         @ [begin_event (?h ! d) 1] @ mid @ [end_event_record (?h ! d) 1]
         @ post @ [end_event_record (?h ! n) 1]"
    by blast
  from concat_split_nth [OF len] evs split1 split2 have
    "evs = (concat (take i ss) @ pre1) @ [begin_event (?h ! n) 1] @ pre
         @ [begin_event (?h ! d) 1] @ mid @ [end_event_record (?h ! d) 1]
         @ post @ [end_event_record (?h ! n) 1] @ (post1 @ concat (drop (Suc i) ss))"
    by simp
  with d show "\<exists>before pre mid post after.
         to_chrome_trace_events depth ?h d 1
           = Some ([begin_event (?h ! d) 1] @ mid @ [end_event_record (?h ! d) 1])
         \<and> evs = before @ [begin_event (?h ! n) 1] @ pre
             @ [begin_event (?h ! d) 1] @ mid @ [end_event_record (?h ! d) 1]
             @ post @ [end_event_record (?h ! n) 1] @ after"
    by blast
qed


lemma ex_feed: "feed ex_profiler ex_lines = ex_dangling"
  by (simp add: ex_lines_def ex_dangling_def ex_open_AB_def ex_open_A_def)

lemma ex_fresh: "fresh ex_profiler"
  by (simp add: fresh_def ex_profiler_def)

lemma ex_finalized_wf: "wf_state ex_finalized"
  unfolding ex_finalized_def ex_feed [symmetric]
  by (intro wf_state_close_dangling_events wf_state_feed fresh_wf_state ex_fresh)

theorem trace_nesting_witness:
  "wf_state ex_finalized \<and> length (nodes ex_finalized) \<le> 5
   \<and> export_chrome_trace 5 ex_finalized =
       Some [\<lparr>te_name = ''A'', te_cat = ''PERF'', te_ph = ''B'', te_ts = 0, te_pid = 1, te_tid = 1\<rparr>,
             \<lparr>te_name = ''B'', te_cat = ''PERF'', te_ph = ''B'', te_ts = 1000, te_pid = 1, te_tid = 1\<rparr>,
             \<lparr>te_name = ''B'', te_cat = ''PERF'', te_ph = ''E'', te_ts = 5000, te_pid = 1, te_tid = 1\<rparr>,
             \<lparr>te_name = ''A'', te_cat = ''PERF'', te_ph = ''E'', te_ts = 0, te_pid = 1, te_tid = 1\<rparr>]
   \<and> 0 \<in> forest ex_finalized
   \<and> 1 \<in> set (children (nodes ex_finalized ! 0))
   \<and> 1 \<in> subtree (nodes ex_finalized) 1
   \<and> (\<exists>before pre mid post after.
         [\<lparr>te_name = ''A'', te_cat = ''PERF'', te_ph = ''B'', te_ts = 0, te_pid = 1, te_tid = 1\<rparr>,
          \<lparr>te_name = ''B'', te_cat = ''PERF'', te_ph = ''B'', te_ts = 1000, te_pid = 1, te_tid = 1\<rparr>,
          \<lparr>te_name = ''B'', te_cat = ''PERF'', te_ph = ''E'', te_ts = 5000, te_pid = 1, te_tid = 1\<rparr>,
          \<lparr>te_name = ''A'', te_cat = ''PERF'', te_ph = ''E'', te_ts = 0, te_pid = 1, te_tid = 1\<rparr>]
           = before @ [begin_event (nodes ex_finalized ! 0) 1] @ pre
             @ [begin_event (nodes ex_finalized ! 1) 1] @ mid
             @ [end_event_record (nodes ex_finalized ! 1) 1]
             @ post @ [end_event_record (nodes ex_finalized ! 0) 1] @ after)"
proof -
  let ?evs =
    "[\<lparr>te_name = ''A'', te_cat = ''PERF'', te_ph = ''B'', te_ts = 0, te_pid = 1, te_tid = 1\<rparr>,
      \<lparr>te_name = ''B'', te_cat = ''PERF'', te_ph = ''B'', te_ts = 1000, te_pid = 1, te_tid = 1\<rparr>,
      \<lparr>te_name = ''B'', te_cat = ''PERF'', te_ph = ''E'', te_ts = 5000, te_pid = 1, te_tid = 1\<rparr>,
      \<lparr>te_name = ''A'', te_cat = ''PERF'', te_ph = ''E'', te_ts = 0, te_pid = 1, te_tid = 1\<rparr>]"
  have len: "length (nodes ex_finalized) \<le> 5"
    by (simp add: ex_finalized_eq)
  have export: "export_chrome_trace 5 ex_finalized = Some ?evs"
    by (simp add: ex_finalized_eq export_chrome_trace_def numeral_nat begin_event_def
        end_event_record_def)
  have root: "0 \<in> forest ex_finalized"
    by (simp add: forest_def ex_finalized_eq subtree_self)
  have child: "1 \<in> set (children (nodes ex_finalized ! 0))"
    by (simp add: ex_finalized_eq)
  have below: "1 \<in> subtree (nodes ex_finalized) 1"
    by (rule subtree_self)
  from trace_nesting [of ex_finalized 5 ?evs 0 1 1] export root child below
  have "\<exists>before pre mid post after.
         ?evs = before @ [begin_event (nodes ex_finalized ! 0) 1] @ pre
             @ [begin_event (nodes ex_finalized ! 1) 1] @ mid
             @ [end_event_record (nodes ex_finalized ! 1) 1]
             @ post @ [end_event_record (nodes ex_finalized ! 0) 1] @ after"
    by blast
  with ex_finalized_wf len export root child below show ?thesis
    by (intro conjI)
qed

section \<open>The text report\<close>

lemma print_entries_sound:
  "print_node_recursive depth st a level = Some es \<Longrightarrow> e \<in> set es \<Longrightarrow>
     \<exists>b \<in> subtree (nodes st) a. \<exists>l. e = node_entry st (nodes st ! b) l"
proof (induction depth arbitrary: a level es)
  case 0
  then show ?case by simp
next
  case (Suc depth)
  let ?cs = "children (nodes st ! a)"
  from Suc.prems(1) obtain sub where
    sub: "those (map (\<lambda>child. print_node_recursive depth st child (level + 1)) ?cs) = Some sub"
    and es: "es = node_entry st (nodes st ! a) level # concat sub"
    by (auto split: option.splits)
  show ?case
  proof (cases "e = node_entry st (nodes st ! a) level")
    case True
    then show ?thesis by (auto intro: subtree_self)
  next
    case False
    with Suc.prems(2) es have "e \<in> set (concat sub)"
      by simp
    from in_concat_nth [OF this] obtain i where i: "i < length sub" "e \<in> set (sub ! i)"
      by blast
    from those_map_nth [OF sub] i have
      "print_node_recursive depth st (?cs ! i) (level + 1) = Some (sub ! i)" "i < length ?cs"
      by auto
    with Suc.IH i(2) obtain b l where
      "b \<in> subtree (nodes st) (?cs ! i)" "e = node_entry st (nodes st ! b) l"
      by blast
    moreover have "?cs ! i \<in> set ?cs"
      using \<open>i < length ?cs\<close> by simp
    ultimately show ?thesis
      by (blast intro: subtree_below)
  qed
qed

lemma print_entries_complete:
  "print_node_recursive depth st a level = Some es \<Longrightarrow> b \<in> subtree (nodes st) a \<Longrightarrow>
     \<exists>l. node_entry st (nodes st ! b) l \<in> set es"
proof (induction depth arbitrary: a level es)
  case 0
  then show ?case by simp
next
  case (Suc depth)
  let ?cs = "children (nodes st ! a)"
  from Suc.prems(1) obtain sub where
    sub: "those (map (\<lambda>child. print_node_recursive depth st child (level + 1)) ?cs) = Some sub"
    and es: "es = node_entry st (nodes st ! a) level # concat sub"
    by (auto split: option.splits)
  from subtree_head [OF Suc.prems(2)] show ?case
  proof
    assume "b = a"
    with es show ?thesis by auto
  next
    assume "\<exists>c \<in> set ?cs. b \<in> subtree (nodes st) c"
    then obtain i where i: "i < length ?cs" "b \<in> subtree (nodes st) (?cs ! i)"
      by (auto simp: in_set_conv_nth)
    from those_map_nth [OF sub] i(1) have
      p: "print_node_recursive depth st (?cs ! i) (level + 1) = Some (sub ! i)"
      and len: "length sub = length ?cs"
      by auto
    from Suc.IH [OF p i(2)] obtain l where "node_entry st (nodes st ! b) l \<in> set (sub ! i)"
      by blast
    moreover have "sub ! i \<in> set sub"
      using i(1) len by simp
    ultimately show ?thesis
      using es by auto
  qed
qed

lemma compile_events_lookup:
  "compile_events lib evts = Inr ds \<Longrightarrow>
     lookup_threshold ds nm =
       (case find (\<lambda>evt. cfg_name evt = nm) evts of
          None \<Rightarrow> 0
        | Some evt \<Rightarrow> (case threshold_ms evt of None \<Rightarrow> 0 | Some t \<Rightarrow> t))"
proof (induction evts arbitrary: ds)
  case Nil
  then show ?case by (simp add: lookup_threshold_def)
next
  case (Cons evt evts)
  from Cons.prems obtain s e ds' where
    "compile_events lib evts = Inr ds'"
    "ds = \<lparr>def_name = cfg_name evt, start_re = s, end_re = e,
            threshold = (case threshold_ms evt of None \<Rightarrow> 0 | Some t \<Rightarrow> t)\<rparr> # ds'"
    by (auto split: option.splits sum.splits)
  with Cons.IH [of ds'] show ?case
    by (simp add: lookup_threshold_def)
qed

lemma LogProfiler_lookup:
  "LogProfiler lib c = Inr st \<Longrightarrow>
     lookup_threshold (event_defs st) nm =
       (case find (\<lambda>evt. cfg_name evt = nm) (events c) of
          None \<Rightarrow> 0
        | Some evt \<Rightarrow> (case threshold_ms evt of None \<Rightarrow> 0 | Some t \<Rightarrow> t))"
  by (auto simp add: LogProfiler_def compile_events_lookup split: option.splits sum.splits)

lemma report_entries:
  assumes "print_text_report depth st = Some report"
  shows "e \<in> set report \<Longrightarrow> \<exists>a \<in> forest st. \<exists>l. e = node_entry st (nodes st ! a) l"
    and "a \<in> forest st \<Longrightarrow> \<exists>l. node_entry st (nodes st ! a) l \<in> set report"
proof -
  let ?rs = "completed_roots st"
  from assms obtain sub where
    sub: "those (map (\<lambda>root. print_node_recursive depth st root 0) ?rs) = Some sub"
    and report: "report = concat sub"
    by (auto simp add: print_text_report_def)
  note nth = those_map_nth [OF sub]
  show "\<exists>a \<in> forest st. \<exists>l. e = node_entry st (nodes st ! a) l" if "e \<in> set report"
  proof -
    from that report have "e \<in> set (concat sub)"
      by simp
    from in_concat_nth [OF this] obtain i where i: "i < length sub" "e \<in> set (sub ! i)"
      by blast
    with nth have "print_node_recursive depth st (?rs ! i) 0 = Some (sub ! i)" "i < length ?rs"
      by auto
    with print_entries_sound i(2) obtain b l where
      "b \<in> subtree (nodes st) (?rs ! i)" "e = node_entry st (nodes st ! b) l"
      by blast
    moreover have "?rs ! i \<in> set ?rs"
      using \<open>i < length ?rs\<close> by simp
    ultimately show ?thesis
      unfolding forest_def by blast
  qed
  show "\<exists>l. node_entry st (nodes st ! a) l \<in> set report" if "a \<in> forest st"
  proof -
    from that obtain i where i: "i < length ?rs" "a \<in> subtree (nodes st) (?rs ! i)"
      by (auto simp: forest_def in_set_conv_nth)
    with nth have p: "print_node_recursive depth st (?rs ! i) 0 = Some (sub ! i)"
      and len: "length sub = length ?rs"
      by auto
    from print_entries_complete [OF p i(2)] obtain l where
      "node_entry st (nodes st ! a) l \<in> set (sub ! i)"
      by blast
    moreover have "sub ! i \<in> set sub"
      using i(1) len by simp
    ultimately show ?thesis
      using report by auto
  qed
qed

lemma print_node_returns:
  assumes "heap_ok (nodes st)"
  shows "a < length (nodes st) \<Longrightarrow> length (nodes st) - a \<le> k \<Longrightarrow>
     \<exists>es. print_node_recursive k st a level = Some es"
proof (induction k arbitrary: a level)
  case 0
  then show ?case by simp
next
  case (Suc k)
  have "\<exists>y. print_node_recursive k st c (level + 1) = Some y"
    if "c \<in> set (children (nodes st ! a))" for c
  proof -
    from heap_okD [OF assms Suc.prems(1) that] have "a < c" "c < length (nodes st)"
      by simp_all
    with Suc.prems(2) have "length (nodes st) - c \<le> k"
      by simp
    with Suc.IH \<open>c < length (nodes st)\<close> show ?thesis
      by blast
  qed
  from those_map_total [of "children (nodes st ! a)"
      "\<lambda>c. print_node_recursive k st c (level + 1)", OF this]
  obtain ss where
    "those (map (\<lambda>c. print_node_recursive k st c (level + 1)) (children (nodes st ! a)))
       = Some ss"
    by blast
  then show ?case by simp
qed

lemma print_text_report_returns:
  assumes "wf_state st" and "length (nodes st) \<le> depth"
  shows "\<exists>report. print_text_report depth st = Some report"
proof -
  have "\<exists>y. print_node_recursive depth st r 0 = Some y"
    if "r \<in> set (completed_roots st)" for r
    using print_node_returns [OF wf_stateD(1) [OF assms(1)] wf_stateD(3) [OF assms(1) that]]
      assms(2)
    by simp
  from those_map_total [of "completed_roots st" "\<lambda>r. print_node_recursive depth st r 0",
      OF this]
  show ?thesis
    by (auto simp add: print_text_report_def)
qed

text \<open>
  Claim C5, as amended. The report has one entry for every node of the forest and no
  other entry, and the entry of a node is marked warn exactly when the node's duration
  is strictly more than the threshold of the first configured event that bears the
  node's name, where an event configured without a threshold counts with threshold 0
  (and so does a name that no event bears): a node of such an event is marked warn
  exactly when its duration is positive. The report returns a result on every store the
  engine builds, given a depth budget of at least the number of nodes.
\<close>

theorem warn_marker:
  assumes "LogProfiler lib c = Inr st0"
    and "event_defs st = event_defs st0"
  shows "(wf_state st \<and> length (nodes st) \<le> depth \<longrightarrow>
           (\<exists>report. print_text_report depth st = Some report))
    \<and> (print_text_report depth st = Some report \<longrightarrow>
         (\<forall>e \<in> set report. \<exists>a \<in> forest st. \<exists>l. e = node_entry st (nodes st ! a) l)
         \<and> (\<forall>a \<in> forest st. \<exists>l. node_entry st (nodes st ! a) l \<in> set report))
    \<and> (rp_icon (node_entry st n level) = Turtle \<longleftrightarrow>
         duration_ms n >
           (case find (\<lambda>evt. cfg_name evt = name n) (events c) of
              None \<Rightarrow> 0
            | Some evt \<Rightarrow> (case threshold_ms evt of None \<Rightarrow> 0 | Some t \<Rightarrow> t)))"
proof (intro conjI impI)
  assume "wf_state st \<and> length (nodes st) \<le> depth"
  then show "\<exists>report. print_text_report depth st = Some report"
    using print_text_report_returns by blast
next
  assume r: "print_text_report depth st = Some report"
  from report_entries(1) [OF r]
  show "\<forall>e \<in> set report. \<exists>a \<in> forest st. \<exists>l. e = node_entry st (nodes st ! a) l"
    by blast
next
  assume r: "print_text_report depth st = Some report"
  from report_entries(2) [OF r]
  show "\<forall>a \<in> forest st. \<exists>l. node_entry st (nodes st ! a) l \<in> set report"
    by blast
next
  have "rp_icon (node_entry st n level) = Turtle \<longleftrightarrow>
      duration_ms n > lookup_threshold (event_defs st0) (name n)"
    by (simp add: node_entry_def assms(2))
  with LogProfiler_lookup [OF assms(1)]
  show "rp_icon (node_entry st n level) = Turtle \<longleftrightarrow>
         duration_ms n >
           (case find (\<lambda>evt. cfg_name evt = name n) (events c) of
              None \<Rightarrow> 0
            | Some evt \<Rightarrow> (case threshold_ms evt of None \<Rightarrow> 0 | Some t \<Rightarrow> t))"
    by simp
qed

lemma ex_report_done_A:
  "print_text_report 5 ex_done_A =
     Some [\<lparr>rp_level = 0, rp_icon = Turtle, rp_name = ''A'', rp_total = 5, rp_self = 5,
            rp_thread = 1\<rparr>]"
  by (simp add: ex_done_A_eq print_text_report_def numeral_nat node_entry_def
      lookup_threshold_def ex_profiler_def ex_defs_def duration_ms_def self_time_ms_def
      child_duration_def)

text \<open>
  Claim C5 as stated fails for an event configured without a threshold: event \<open>A\<close> has
  none, its node lasted 5 ms, and the report marks it warn.
\<close>

theorem unconfigured_threshold_warns:
  "LogProfiler ex_lib ex_config = Inr ex_profiler
   \<and> cfg_name (events ex_config ! 0) = ''A''
   \<and> threshold_ms (events ex_config ! 0) = None
   \<and> ex_done_A = check_events (check_events ex_profiler 1 0 ''START A'') 1 5000 ''END A''
   \<and> print_text_report 5 ex_done_A =
       Some [\<lparr>rp_level = 0, rp_icon = Turtle, rp_name = ''A'', rp_total = 5, rp_self = 5,
              rp_thread = 1\<rparr>]"
proof -
  have "cfg_name (events ex_config ! 0) = ''A''" "threshold_ms (events ex_config ! 0) = None"
    by (simp_all add: ex_config_def)
  moreover have "ex_done_A = check_events (check_events ex_profiler 1 0 ''START A'') 1 5000 ''END A''"
    by (simp add: ex_done_A_def ex_open_A_def)
  ultimately show ?thesis
    using ex_init ex_report_done_A by (intro conjI)
qed

lemma ex_done_A_wf: "wf_state ex_done_A"
  unfolding ex_done_A_def ex_open_A_def
  by (intro wf_state_check_events fresh_wf_state ex_fresh)

theorem warn_marker_witness:
  "LogProfiler ex_lib ex_config = Inr ex_profiler
   \<and> event_defs ex_done_A = event_defs ex_profiler
   \<and> wf_state ex_done_A \<and> length (nodes ex_done_A) \<le> 5
   \<and> print_text_report 5 ex_done_A =
       Some [\<lparr>rp_level = 0, rp_icon = Turtle, rp_name = ''A'', rp_total = 5, rp_self = 5,
              rp_thread = 1\<rparr>]
   \<and> 0 \<in> forest ex_done_A
   \<and> (\<exists>l. node_entry ex_done_A (nodes ex_done_A ! 0) l
         \<in> set [\<lparr>rp_level = 0, rp_icon = Turtle, rp_name = ''A'', rp_total = 5, rp_self = 5,
                  rp_thread = 1\<rparr>])
   \<and> rp_icon (node_entry ex_done_A (nodes ex_done_A ! 0) 0) = Turtle
   \<and> duration_ms (nodes ex_done_A ! 0) > 0"
proof -
  let ?report = "[\<lparr>rp_level = 0, rp_icon = Turtle, rp_name = ''A'', rp_total = 5, rp_self = 5,
              rp_thread = 1\<rparr>]"
  have defs: "event_defs ex_done_A = event_defs ex_profiler"
    by (simp add: ex_done_A_eq)
  have len: "length (nodes ex_done_A) \<le> 5"
    by (simp add: ex_done_A_eq)
  have in_forest: "0 \<in> forest ex_done_A"
    by (simp add: forest_def ex_done_A_eq subtree_self)
  have facts: "find (\<lambda>evt. cfg_name evt = name (nodes ex_done_A ! 0)) (events ex_config)
      = Some (events ex_config ! 0)"
    "threshold_ms (events ex_config ! 0) = None"
    "duration_ms (nodes ex_done_A ! 0) = 5"
    by (simp_all add: ex_done_A_eq ex_config_def duration_ms_def)
  note marker = warn_marker [OF ex_init defs, of 5 ?report "nodes ex_done_A ! 0" 0]
  from marker ex_report_done_A in_forest
  have entry: "\<exists>l. node_entry ex_done_A (nodes ex_done_A ! 0) l \<in> set ?report"
    by blast
  from marker facts have "rp_icon (node_entry ex_done_A (nodes ex_done_A ! 0) 0) = Turtle"
    "duration_ms (nodes ex_done_A ! 0) > 0"
    by simp_all
  with ex_init defs ex_done_A_wf len ex_report_done_A in_forest entry show ?thesis
    by (intro conjI)
qed


section \<open>What the engine keeps true\<close>





lemma start_event_old_fields:
  assumes "a < length (nodes st)"
  shows "end_time (nodes (start_event st d tid ts) ! a) = end_time (nodes st ! a)"
    and "start_time (nodes (start_event st d tid ts) ! a) = start_time (nodes st ! a)"
    and "thread_id (nodes (start_event st d tid ts) ! a) = thread_id (nodes st ! a)"
    and "name (nodes (start_event st d tid ts) ! a) = name (nodes st ! a)"
  by (simp_all add: start_event_old_node [OF assms])

lemma attach_fields:
  assumes "n < length h1"
  shows "end_time (h1[p := (h1 ! p)\<lparr>children := c\<rparr>] ! n) = end_time (h1 ! n)"
    and "start_time (h1[p := (h1 ! p)\<lparr>children := c\<rparr>] ! n) = start_time (h1 ! n)"
    and "thread_id (h1[p := (h1 ! p)\<lparr>children := c\<rparr>] ! n) = thread_id (h1 ! n)"
    and "name (h1[p := (h1 ! p)\<lparr>children := c\<rparr>] ! n) = name (h1 ! n)"
  using assms by (cases "p = n"; simp)+

lemma start_event_new_fields:
  shows "end_time (nodes (start_event st d tid ts) ! length (nodes st)) = None"
    and "start_time (nodes (start_event st d tid ts) ! length (nodes st)) = ts"
    and "thread_id (nodes (start_event st d tid ts) ! length (nodes st)) = tid"
    and "name (nodes (start_event st d tid ts) ! length (nodes st)) = def_name d"
  by (simp_all add: start_event_def Let_def attach_fields TraceNode_def)




lemma on_stackE:
  assumes "on_stack st a"
  obtains t stk where "(t, stk) \<in> set (thread_stacks st)" "a \<in> set stk"
  using assms unfolding on_stack_def by blast








subsection \<open>Instants that do not decrease\<close>










section \<open>Forced closure at the end of the stream\<close>









section \<open>Balanced round trip\<close>

lemma feed_append: "feed st (xs @ ys) = feed (feed st xs) ys"
  by (induction st xs rule: feed.induct) simp_all

lemma end_event_pop:
  assumes "map_of (thread_stacks st) tid = Some (stack @ [node])"
    and "name (nodes st ! node) = def_name d"
  shows "nodes (end_event st d tid ts) = (nodes st)[node := close (nodes st ! node) ts]"
    and "thread_stacks (end_event st d tid ts) = AList.update tid stack (thread_stacks st)"
    and "completed_roots (end_event st d tid ts) =
       (if stack = [] then completed_roots st @ [node] else completed_roots st)"
    and "event_defs (end_event st d tid ts) = event_defs st"
  using assms by (simp_all add: end_event_def Let_def)

lemma check_events_start:
  "classify (event_defs st) message = Some (Start d) \<Longrightarrow>
     check_events st tid ts message = start_event st d tid ts"
  by (simp add: check_events_def check_defs_classify)

lemma check_events_end:
  "classify (event_defs st) message = Some (End d) \<Longrightarrow>
     check_events st tid ts message = end_event st d tid ts"
  by (simp add: check_events_def check_defs_classify)

lemma nested_feed:
  assumes "nested defs tid ls n"
  shows "event_defs st = defs \<Longrightarrow> map_of (thread_stacks st) tid = Some s \<Longrightarrow> s \<noteq> [] \<Longrightarrow>
     thread_stacks (feed st ls) = thread_stacks st
     \<and> completed_roots (feed st ls) = completed_roots st
     \<and> event_defs (feed st ls) = defs
     \<and> length (nodes (feed st ls)) = length (nodes st) + n
     \<and> (\<forall>a < length (nodes st).
           name (nodes (feed st ls) ! a) = name (nodes st ! a)
           \<and> start_time (nodes (feed st ls) ! a) = start_time (nodes st ! a)
           \<and> end_time (nodes (feed st ls) ! a) = end_time (nodes st ! a)
           \<and> thread_id (nodes (feed st ls) ! a) = thread_id (nodes st ! a))"
  using assms
proof (induction arbitrary: st s rule: nested.induct)
  case nested_Nil
  then show ?case by simp
next
  case (nested_pair m1 d1 m2 d2 inner k rest j t1 t2)
  let ?n0 = "length (nodes st)"
  let ?st1 = "start_event st d1 tid t1"
  let ?st2 = "feed ?st1 inner"
  let ?st3 = "end_event ?st2 d2 tid t2"
  let ?st4 = "feed ?st3 rest"
  note defs = \<open>event_defs st = defs\<close>
  note stack = \<open>map_of (thread_stacks st) tid = Some s\<close>
  from stack have s: "stack_of st tid = s"
    by (simp add: stack_of_def)
  have run: "feed st ((tid, t1, m1) # inner @ (tid, t2, m2) # rest) = ?st4"
    using nested_pair.hyps(1,2) defs
  proof -
    have 1: "check_events st tid t1 m1 = ?st1"
      using nested_pair.hyps(1) defs by (simp add: check_events_start)
    have "event_defs ?st2 = defs"
      using nested_pair.IH(1) [of ?st1 "s @ [?n0]"] defs s
      by (simp add: start_event_simps update_conv')
    then have 2: "check_events ?st2 tid t2 m2 = ?st3"
      using nested_pair.hyps(2) by (simp add: check_events_end)
    show ?thesis
      by (simp add: feed_append 1 2)
  qed
  have stacks1: "map_of (thread_stacks ?st1) tid = Some (s @ [?n0])"
    by (simp add: start_event_simps update_conv' s)
  from nested_pair.IH(1) [OF _ stacks1] defs have
    st2: "thread_stacks ?st2 = thread_stacks ?st1" "completed_roots ?st2 = completed_roots st"
      "event_defs ?st2 = defs" "length (nodes ?st2) = Suc ?n0 + k"
    and old2: "\<And>a. a < Suc ?n0 \<Longrightarrow>
           name (nodes ?st2 ! a) = name (nodes ?st1 ! a)
           \<and> start_time (nodes ?st2 ! a) = start_time (nodes ?st1 ! a)
           \<and> end_time (nodes ?st2 ! a) = end_time (nodes ?st1 ! a)
           \<and> thread_id (nodes ?st2 ! a) = thread_id (nodes ?st1 ! a)"
    by (simp_all add: start_event_simps)
  from st2(1) stacks1 have stacks2: "map_of (thread_stacks ?st2) tid = Some (s @ [?n0])"
    by simp
  from old2 [of ?n0] nested_pair.hyps(3) have top: "name (nodes ?st2 ! ?n0) = def_name d2"
    by (simp add: start_event_new_fields)
  note pop = end_event_pop [OF stacks2 top, of t2]
  have stacks3: "thread_stacks ?st3 = thread_stacks st"
    using stack by (simp add: pop(2) st2(1) start_event_simps update_triv)
  have roots3: "completed_roots ?st3 = completed_roots st"
    using \<open>s \<noteq> []\<close> by (simp add: pop(3) st2(2))
  have defs3: "event_defs ?st3 = defs"
    by (simp add: pop(4) st2(3))
  have len3: "length (nodes ?st3) = Suc ?n0 + k"
    by (simp add: pop(1) st2(4))
  have old3: "nodes ?st3 ! a = nodes ?st2 ! a" if "a < ?n0" for a
    using that by (simp add: pop(1))
  from stacks3 stack have stacks3': "map_of (thread_stacks ?st3) tid = Some s"
    by simp
  from nested_pair.IH(2) [OF defs3 stacks3' \<open>s \<noteq> []\<close>] have
    st4: "thread_stacks ?st4 = thread_stacks st" "completed_roots ?st4 = completed_roots st"
      "event_defs ?st4 = defs" "length (nodes ?st4) = Suc ?n0 + k + j"
    and old4: "\<And>a. a < Suc ?n0 + k \<Longrightarrow>
           name (nodes ?st4 ! a) = name (nodes ?st3 ! a)
           \<and> start_time (nodes ?st4 ! a) = start_time (nodes ?st3 ! a)
           \<and> end_time (nodes ?st4 ! a) = end_time (nodes ?st3 ! a)
           \<and> thread_id (nodes ?st4 ! a) = thread_id (nodes ?st3 ! a)"
    by (simp_all add: stacks3 roots3 len3)
  have "name (nodes ?st4 ! a) = name (nodes st ! a)
           \<and> start_time (nodes ?st4 ! a) = start_time (nodes st ! a)
           \<and> end_time (nodes ?st4 ! a) = end_time (nodes st ! a)
           \<and> thread_id (nodes ?st4 ! a) = thread_id (nodes st ! a)" if "a < ?n0" for a
    using that old4 [of a] old3 [of a] old2 [of a] by (simp add: start_event_old_fields)
  with st4 show ?case
    unfolding run by simp
qed


lemma close_dangling_events_empty_stacks:
  assumes "\<And>t stk. (t, stk) \<in> set (thread_stacks st) \<Longrightarrow> stk = []"
  shows "close_dangling_events st = st"
proof -
  have "\<not> on_stack st a" for a
  proof
    assume "on_stack st a"
    then obtain t stk where "(t, stk) \<in> set (thread_stacks st)" "a \<in> set stk"
      by (rule on_stackE)
    with assms [of t stk] show False by simp
  qed
  then have "{a. on_stack st a} = {}"
    by simp
  moreover have "filter (\<lambda>(tid, stack). stack \<noteq> []) (thread_stacks st) = []"
    unfolding filter_empty_conv using assms by fastforce
  moreover have "map (\<lambda>(tid, stack). (tid, [])) (thread_stacks st) = thread_stacks st"
  proof (rule map_idI)
    fix p
    assume "p \<in> set (thread_stacks st)"
    with assms [of "fst p" "snd p"] show "(case p of (tid, stack) \<Rightarrow> (tid, [])) = p"
      by (cases p) simp
  qed
  ultimately show ?thesis
    by (simp add: close_dangling_events_eq)
qed

text \<open>
  Claim C8. Take a start line, properly nested pairs (\<open>k\<close> of them) and an end line of a
  definition with the name of the one that started, all on one thread: \<open>N = k + 1\<close>
  pairs. After the engine has read them from a fresh profiler and forced closure has
  run, the store holds exactly \<open>N\<close> nodes, the completed roots are the one node of the
  outer pair, which carries its name, thread, start and end, and the stack of the thread
  is empty.
\<close>

theorem balanced_round_trip:
  assumes "fresh st0"
    and "classify (event_defs st0) m1 = Some (Start d1)"
    and "classify (event_defs st0) m2 = Some (End d2)"
    and "def_name d2 = def_name d1"
    and "nested (event_defs st0) tid inner k"
    and "st = close_dangling_events (feed st0 ((tid, t1, m1) # inner @ [(tid, t2, m2)]))"
  shows "length (nodes st) = Suc k
    \<and> completed_roots st = [0]
    \<and> thread_stacks st = [(tid, [])]
    \<and> name (nodes st ! 0) = def_name d1
    \<and> thread_id (nodes st ! 0) = tid
    \<and> start_time (nodes st ! 0) = t1
    \<and> end_time (nodes st ! 0) = Some t2"
proof -
  let ?st1 = "start_event st0 d1 tid t1"
  let ?st2 = "feed ?st1 inner"
  let ?st3 = "end_event ?st2 d2 tid t2"
  from assms(1) have empty: "thread_stacks st0 = []" "completed_roots st0 = []" "nodes st0 = []"
    by (simp_all add: fresh_def)
  then have s0: "stack_of st0 tid = []"
    by (simp add: stack_of_def)
  have stacks1: "thread_stacks ?st1 = [(tid, [0])]"
    by (simp add: start_event_simps s0 empty)
  then have top1: "map_of (thread_stacks ?st1) tid = Some ([] @ [0])"
    by simp
  have len1: "length (nodes ?st1) = Suc 0"
    by (simp add: start_event_simps empty)
  have node1: "name (nodes ?st1 ! 0) = def_name d1" "thread_id (nodes ?st1 ! 0) = tid"
    "start_time (nodes ?st1 ! 0) = t1"
    using start_event_new_fields [of st0 d1 tid t1] by (simp_all add: empty)
  have defs1: "event_defs ?st1 = event_defs st0"
    by (simp add: start_event_simps)
  from nested_feed [OF assms(5) defs1, of "[0]"] stacks1 have
    st2: "thread_stacks ?st2 = [(tid, [0])]" "completed_roots ?st2 = []"
      "event_defs ?st2 = event_defs st0" "length (nodes ?st2) = Suc k"
    and node2: "name (nodes ?st2 ! 0) = def_name d1" "thread_id (nodes ?st2 ! 0) = tid"
      "start_time (nodes ?st2 ! 0) = t1"
    by (simp_all add: len1 node1 start_event_simps empty)
  from st2(1) have top2: "map_of (thread_stacks ?st2) tid = Some ([] @ [0])"
    by simp
  from node2(1) assms(4) have "name (nodes ?st2 ! 0) = def_name d2"
    by simp
  note pop = end_event_pop [OF top2 this, of t2]
  have st3: "thread_stacks ?st3 = [(tid, [])]" "completed_roots ?st3 = [0]"
    "length (nodes ?st3) = Suc k"
    by (simp_all add: pop st2)
  have node3: "nodes ?st3 ! 0 = close (nodes ?st2 ! 0) t2"
    by (simp add: pop(1) st2(4))
  have run: "feed st0 ((tid, t1, m1) # inner @ [(tid, t2, m2)]) = ?st3"
    using assms(2,3) st2(3)
    by (simp add: feed_append check_events_start check_events_end)
  have "close_dangling_events ?st3 = ?st3"
    by (rule close_dangling_events_empty_stacks) (simp add: st3(1))
  with assms(6) run have "st = ?st3"
    by simp
  with st3 node3 node2 show ?thesis
    by simp
qed

lemma ex_nested: "nested (event_defs ex_profiler) 1 [(1, 1000, ''START B''), (1, 5000, ''END B'')] 1"
proof -
  have "nested ex_defs 1 ((1, 1000, ''START B'') # [] @ (1, 5000, ''END B'') # []) (Suc (0 + 0))"
    by (rule nested_pair [OF classify_ex(3) classify_ex(4) refl nested_Nil nested_Nil])
  then show ?thesis
    by (simp add: ex_profiler_def)
qed

theorem balanced_round_trip_witness:
  "fresh ex_profiler
   \<and> classify (event_defs ex_profiler) ''START A'' = Some (Start (ex_defs ! 0))
   \<and> classify (event_defs ex_profiler) ''END A'' = Some (End (ex_defs ! 0))
   \<and> nested (event_defs ex_profiler) 1 [(1, 1000, ''START B''), (1, 5000, ''END B'')] 1
   \<and> ex_pairs = (1, 0, ''START A'') # [(1, 1000, ''START B''), (1, 5000, ''END B'')]
        @ [(1, 10000, ''END A'')]
   \<and> length (nodes (close_dangling_events (feed ex_profiler ex_pairs))) = 2
   \<and> completed_roots (close_dangling_events (feed ex_profiler ex_pairs)) = [0]
   \<and> thread_stacks (close_dangling_events (feed ex_profiler ex_pairs)) = [(1, [])]
   \<and> name (nodes (close_dangling_events (feed ex_profiler ex_pairs)) ! 0) = ''A''
   \<and> end_time (nodes (close_dangling_events (feed ex_profiler ex_pairs)) ! 0) = Some 10000"
proof -
  have start: "classify (event_defs ex_profiler) ''START A'' = Some (Start (ex_defs ! 0))"
    and end': "classify (event_defs ex_profiler) ''END A'' = Some (End (ex_defs ! 0))"
    by (simp_all add: ex_profiler_def classify_ex)
  have pairs: "ex_pairs = (1, 0, ''START A'') # [(1, 1000, ''START B''), (1, 5000, ''END B'')]
        @ [(1, 10000, ''END A'')]"
    by (simp add: ex_pairs_def)
  from balanced_round_trip [OF ex_fresh start end' refl ex_nested, of _ 0 10000,
      OF pairs [THEN arg_cong, of "\<lambda>ls. close_dangling_events (feed ex_profiler ls)"]]
  have "length (nodes (close_dangling_events (feed ex_profiler ex_pairs))) = 2
   \<and> completed_roots (close_dangling_events (feed ex_profiler ex_pairs)) = [0]
   \<and> thread_stacks (close_dangling_events (feed ex_profiler ex_pairs)) = [(1, [])]
   \<and> name (nodes (close_dangling_events (feed ex_profiler ex_pairs)) ! 0) = ''A''
   \<and> end_time (nodes (close_dangling_events (feed ex_profiler ex_pairs)) ! 0) = Some 10000"
    by (simp add: ex_defs_names)
  with ex_fresh start end' ex_nested pairs show ?thesis
    by (intro conjI) simp_all
qed

lemma ex_pairs_run:
  "close_dangling_events (feed ex_profiler ex_pairs) =
     ex_profiler\<lparr>thread_stacks := [(1, [])], completed_roots := [0],
       nodes := [\<lparr>name = ''A'', start_time = 0, end_time = Some 10000, thread_id = 1,
                  children = [1], parent = None\<rparr>,
                 \<lparr>name = ''B'', start_time = 1000, end_time = Some 5000, thread_id = 1,
                  children = [], parent = Some 0\<rparr>]\<rparr>"
proof -
  have "feed ex_profiler ex_pairs = check_events ex_dangling 1 10000 ''END A''"
    by (simp add: ex_pairs_def ex_dangling_def ex_open_AB_def ex_open_A_def)
  also have "\<dots> =
     ex_profiler\<lparr>thread_stacks := [(1, [])], completed_roots := [0],
       nodes := [\<lparr>name = ''A'', start_time = 0, end_time = Some 10000, thread_id = 1,
                  children = [1], parent = None\<rparr>,
                 \<lparr>name = ''B'', start_time = 1000, end_time = Some 5000, thread_id = 1,
                  children = [], parent = Some 0\<rparr>]\<rparr>"
    by (simp add: ex_dangling_eq ex_profiler_def ex_eval)
  finally show ?thesis
    by (simp add: close_dangling_events_def ex_profiler_def)
qed

text \<open>
  The scenario of the specification: the report shows the root \<open>A\<close> with total 10 ms and
  self time 6 ms, and below it \<open>B\<close> with total and self time 4 ms.
\<close>

lemma ex_pairs_report:
  "print_text_report 5 (close_dangling_events (feed ex_profiler ex_pairs)) =
     Some [\<lparr>rp_level = 0, rp_icon = Turtle, rp_name = ''A'', rp_total = 10, rp_self = 6,
            rp_thread = 1\<rparr>,
           \<lparr>rp_level = 1, rp_icon = Check_mark, rp_name = ''B'', rp_total = 4, rp_self = 4,
            rp_thread = 1\<rparr>]"
  unfolding ex_pairs_run
  by (simp add: print_text_report_def numeral_nat node_entry_def
      lookup_threshold_def ex_profiler_def ex_defs_def duration_ms_def self_time_ms_def
      child_duration_def)

end
